theory Spec2Isabelle
  imports Main
begin

section \<open>JavaScript values and the objects of deferred.js\<close>

text \<open>
  The values a caller can hand to the library. A user function is \<open>Fun f\<close>, named by a
  number; what it does when applied is given by an invoker (below). \<open>Arr\<close> is a JavaScript
  array, \<open>Obj\<close> any other object.
\<close>

datatype val =
    Undefined
  | Null
  | Bool bool
  | Num int
  | Str string
  | Obj nat
  | Arr "val list"
  | Fun nat

text \<open>The constants \<open>PENDING = 1\<close>, \<open>RESOLVED = 2\<close>, \<open>REJECTED = 3\<close>.\<close>

datatype state = PENDING | RESOLVED | REJECTED

text \<open>\<open>this.events = { done: [], fail: [], always: [] }\<close>\<close>

record event_queues =
  ev_done :: "val list"
  ev_fail :: "val list"
  ev_always :: "val list"

text \<open>
  The \<open>arguments\<close> object of a settlement call, which \<open>resolve\<close> and \<open>rejectWith\<close> store
  in \<open>this.args\<close> (lines 183 and 228). It is array-like, not an array: \<open>length\<close> is an
  ordinary data property, set to the number of actual arguments when the object is
  created, and writing an index does not change it. \<open>arg_items\<close> are the values at the
  indices 0, 1, ... the object has.
\<close>

record arguments =
  arg_length :: nat
  arg_items :: "val list"

definition new_arguments :: "val list \<Rightarrow> arguments" where
  "new_arguments vs = \<lparr>arg_length = length vs, arg_items = vs\<rparr>"

text \<open>\<open>args[0] = v\<close>: index 0 is overwritten, or created when the object has no index 0.\<close>

definition set_index0 :: "val \<Rightarrow> arguments \<Rightarrow> arguments" where
  "set_index0 v a = a\<lparr>arg_items := (case arg_items a of [] \<Rightarrow> [v] | x # xs \<Rightarrow> v # xs)\<rparr>"

text \<open>
  The list \<open>Function.prototype.apply\<close> builds from an array-like: it reads \<open>length\<close> and
  then the indices \<open>0\<close> up to \<open>length - 1\<close>, a missing index as \<open>undefined\<close>.
\<close>

definition array_like :: "arguments \<Rightarrow> val list" where
  "array_like a = take (arg_length a) (arg_items a @ replicate (arg_length a) Undefined)"

text \<open>
  One record of the ghost log: a user function was applied, with this receiver and these
  arguments, while the object had this state and (or not) \<open>events === null\<close>.
\<close>

record invocation =
  callee :: nat
  receiver :: val
  passed :: "val list"
  seen_state :: state
  seen_purged :: bool

text \<open>
  The Deferred object (\<open>state\<close>, \<open>ctxt\<close> for \<open>this.context\<close>, \<open>args\<close>, \<open>events\<close>), the
  store of \<open>arguments\<close> objects that \<open>args\<close> refers into (a reference is an index, \<open>None\<close> is
  \<open>null\<close>), and the ghost log of the user functions applied so far.
\<close>

record world =
  state :: state
  ctxt :: val
  args :: "nat option"
  events :: "event_queues option"
  heap :: "arguments list"
  calls :: "invocation list"

text \<open>\<open>new Deferred()\<close>\<close>

definition Deferred_new :: world where
  "Deferred_new =
     \<lparr>state = PENDING, ctxt = Null, args = None,
      events = Some \<lparr>ev_done = [], ev_fail = [], ev_always = []\<rparr>,
      heap = [], calls = []\<rparr>"

section \<open>Completions\<close>

text \<open>
  A JavaScript call returns a value or throws one; either way the mutations it made stay.
  \<open>None\<close> is a call that never returns.
\<close>

datatype 'a completion = Normal 'a | Throw val

type_synonym 'a outcome = "('a completion \<times> world) option"

fun and_then :: "'a outcome \<Rightarrow> ('a \<Rightarrow> world \<Rightarrow> 'b outcome) \<Rightarrow> 'b outcome" where
  "and_then None k = None"
| "and_then (Some (Throw e, w)) k = Some (Throw e, w)"
| "and_then (Some (Normal x, w)) k = k x w"

definition TypeError :: val where
  "TypeError = Str ''TypeError''"

text \<open>
  How a user function behaves when applied: from its number, the receiver, the argument
  list and the world to its completion. The library never looks inside one.
\<close>

type_synonym invoker = "nat \<Rightarrow> val \<Rightarrow> val list \<Rightarrow> world \<Rightarrow> val outcome"

section \<open>call\<close>

text \<open>What \<open>list.apply(context, args)\<close> passes: nothing for \<open>null\<close>.\<close>

definition apply_args :: "nat option \<Rightarrow> world \<Rightarrow> val list" where
  "apply_args a w = (case a of None \<Rightarrow> [] | Some r \<Rightarrow> array_like (heap w ! r))"

text \<open>\<open>args[0] = newArg\<close>, a TypeError when \<open>args\<close> is \<open>null\<close>.\<close>

definition assign_index0 :: "nat option \<Rightarrow> val \<Rightarrow> world \<Rightarrow> unit outcome" where
  "assign_index0 a v w =
     (case a of
        None \<Rightarrow> Some (Throw TypeError, w)
      | Some r \<Rightarrow> Some (Normal (), w\<lparr>heap := (heap w)[r := set_index0 v (heap w ! r)]\<rparr>))"

definition log_call :: "nat \<Rightarrow> val \<Rightarrow> val list \<Rightarrow> world \<Rightarrow> world" where
  "log_call f c xs w =
     w\<lparr>calls := calls w @
        [\<lparr>callee = f, receiver = c, passed = xs, seen_state = state w,
          seen_purged = (events w = None)\<rparr>]\<rparr>"

text \<open>
  \<open>call(list, context, args)\<close>, lines 79 to 94: a function is applied and, when it
  returns anything but \<open>undefined\<close>, the value is written to \<open>args[0]\<close>; an array is
  walked in order; any other value is passed over. \<open>args\<close> is a reference into the store,
  so the write is seen by every holder of the reference. The log record is written at the
  application, the one place where the library calls user code.
\<close>

fun call :: "invoker \<Rightarrow> val \<Rightarrow> val \<Rightarrow> nat option \<Rightarrow> world \<Rightarrow> unit outcome"
  and call_each :: "invoker \<Rightarrow> val list \<Rightarrow> val \<Rightarrow> nat option \<Rightarrow> world \<Rightarrow> unit outcome"
where
  "call ap (Fun f) c a w =
     and_then (ap f c (apply_args a w) (log_call f c (apply_args a w) w))
       (\<lambda>newArg w'. if newArg \<noteq> Undefined then assign_index0 a newArg w'
                     else Some (Normal (), w'))"
| "call ap (Arr xs) c a w = call_each ap xs c a w"
| "call ap Undefined c a w = Some (Normal (), w)"
| "call ap Null c a w = Some (Normal (), w)"
| "call ap (Bool b) c a w = Some (Normal (), w)"
| "call ap (Num n) c a w = Some (Normal (), w)"
| "call ap (Str s) c a w = Some (Normal (), w)"
| "call ap (Obj k) c a w = Some (Normal (), w)"
| "call_each ap [] c a w = Some (Normal (), w)"
| "call_each ap (x # xs) c a w =
     and_then (call ap x c a w) (\<lambda>_ w'. call_each ap xs c a w')"

section \<open>Registration\<close>

text \<open>\<open>this.events.done.push(cb)\<close> and its two siblings: a TypeError when \<open>events\<close> is \<open>null\<close>.\<close>

definition push_done :: "val \<Rightarrow> world \<Rightarrow> unit outcome" where
  "push_done cb w =
     (case events w of
        None \<Rightarrow> Some (Throw TypeError, w)
      | Some ev \<Rightarrow> Some (Normal (), w\<lparr>events := Some (ev\<lparr>ev_done := ev_done ev @ [cb]\<rparr>)\<rparr>))"

definition push_fail :: "val \<Rightarrow> world \<Rightarrow> unit outcome" where
  "push_fail cb w =
     (case events w of
        None \<Rightarrow> Some (Throw TypeError, w)
      | Some ev \<Rightarrow> Some (Normal (), w\<lparr>events := Some (ev\<lparr>ev_fail := ev_fail ev @ [cb]\<rparr>)\<rparr>))"

definition push_always :: "val \<Rightarrow> world \<Rightarrow> unit outcome" where
  "push_always cb w =
     (case events w of
        None \<Rightarrow> Some (Throw TypeError, w)
      | Some ev \<Rightarrow> Some (Normal (), w\<lparr>events := Some (ev\<lparr>ev_always := ev_always ev @ [cb]\<rparr>)\<rparr>))"

text \<open>\<open>Deferred.prototype.done\<close>, lines 120 to 130.\<close>

definition Deferred_done :: "invoker \<Rightarrow> val \<Rightarrow> world \<Rightarrow> unit outcome" where
  "Deferred_done ap cb w =
     (if state w = RESOLVED then call ap cb (ctxt w) (args w) w
      else if state w = PENDING then push_done cb w
      else Some (Normal (), w))"

text \<open>\<open>Deferred.prototype.fail\<close>, lines 139 to 149.\<close>

definition Deferred_fail :: "invoker \<Rightarrow> val \<Rightarrow> world \<Rightarrow> unit outcome" where
  "Deferred_fail ap cb w =
     (if state w = REJECTED then call ap cb (ctxt w) (args w) w
      else if state w = PENDING then push_fail cb w
      else Some (Normal (), w))"

text \<open>\<open>Deferred.prototype.always\<close>, lines 158 to 168.\<close>

definition Deferred_always :: "invoker \<Rightarrow> val \<Rightarrow> world \<Rightarrow> unit outcome" where
  "Deferred_always ap cb w =
     (if state w \<noteq> PENDING then call ap cb (ctxt w) (args w) w
      else push_always cb w)"

section \<open>Settlement\<close>

text \<open>
  \<open>this.args = arguments\<close>: the call's \<open>arguments\<close> object is a new object of the store,
  and \<open>args\<close> refers to it.
\<close>

definition store_arguments :: "val list \<Rightarrow> world \<Rightarrow> world" where
  "store_arguments vs w = w\<lparr>args := Some (length (heap w)), heap := heap w @ [new_arguments vs]\<rparr>"

text \<open>
  \<open>Deferred.prototype.resolve\<close>, lines 178 to 196. Reading \<open>this.events.done\<close> is a
  TypeError when \<open>events\<close> is \<open>null\<close>; \<open>this.context\<close> and \<open>this.args\<close> are read again for
  the second \<open>call\<close>.
\<close>

definition Deferred_resolve :: "invoker \<Rightarrow> val list \<Rightarrow> world \<Rightarrow> unit outcome" where
  "Deferred_resolve ap vs w =
     (if state w = PENDING then
        (let w1 = store_arguments vs (w\<lparr>state := RESOLVED\<rparr>) in
         case events w1 of
           None \<Rightarrow> Some (Throw TypeError, w1)
         | Some ev \<Rightarrow>
             (let w2 = w1\<lparr>events := None\<rparr> in
              and_then (call ap (Arr (ev_done ev)) (ctxt w2) (args w2) w2)
                (\<lambda>_ w3. call ap (Arr (ev_always ev)) (ctxt w3) (args w3) w3)))
      else Some (Normal (), w))"

text \<open>
  \<open>Deferred.prototype.resolveWith\<close>, lines 206 to 213: \<open>c\<close> is the first argument
  (\<open>undefined\<close> when the call has none), \<open>vs\<close> the rest, \<open>slice.call(arguments, 1)\<close>.
\<close>

definition Deferred_resolveWith :: "invoker \<Rightarrow> val \<Rightarrow> val list \<Rightarrow> world \<Rightarrow> unit outcome" where
  "Deferred_resolveWith ap c vs w =
     (if state w = PENDING then Deferred_resolve ap vs (w\<lparr>ctxt := c\<rparr>)
      else Some (Normal (), w))"

text \<open>
  \<open>Deferred.prototype.rejectWith\<close>, lines 223 to 241: the member of the reject family that
  takes no context.
\<close>

definition Deferred_rejectWith :: "invoker \<Rightarrow> val list \<Rightarrow> world \<Rightarrow> unit outcome" where
  "Deferred_rejectWith ap vs w =
     (if state w = PENDING then
        (let w1 = store_arguments vs (w\<lparr>state := REJECTED\<rparr>) in
         case events w1 of
           None \<Rightarrow> Some (Throw TypeError, w1)
         | Some ev \<Rightarrow>
             (let w2 = w1\<lparr>events := None\<rparr> in
              and_then (call ap (Arr (ev_fail ev)) (ctxt w2) (args w2) w2)
                (\<lambda>_ w3. call ap (Arr (ev_always ev)) (ctxt w3) (args w3) w3)))
      else Some (Normal (), w))"

text \<open>The first element of an argument list, \<open>undefined\<close> when there is none.\<close>

definition first_arg :: "val list \<Rightarrow> val" where
  "first_arg vs = (case vs of [] \<Rightarrow> Undefined | v # _ \<Rightarrow> v)"

text \<open>
  \<open>Deferred.prototype.reject\<close>, lines 251 to 258. Line 254 is
  \<open>this.reject.apply(this, slice.call(arguments, 1))\<close>: the function calls itself, with
  the first of the remaining arguments as the next context. It applies no user function,
  so it takes no invoker. A call that recurses for ever has the value \<open>None\<close> (an engine
  ends it with a RangeError when the stack is full).
\<close>

partial_function (option) Deferred_reject :: "val \<Rightarrow> val list \<Rightarrow> world \<Rightarrow> unit outcome" where
  "Deferred_reject c vs w =
     (if state w = PENDING then Deferred_reject (first_arg vs) (drop 1 vs) (w\<lparr>ctxt := c\<rparr>)
      else Some (Normal (), w))"

declare Deferred_reject.simps [code]

section \<open>User functions that call back into the object\<close>

text \<open>
  What a user function can do to the object it is a callback of: call one of its seven
  methods. A function body is a list of such calls and then a \<open>return\<close> or a \<open>throw\<close>;
  \<open>Return Undefined\<close> is a body that returns nothing. An exception thrown by a method
  call leaves the body.
\<close>

datatype action =
    CallDone val
  | CallFail val
  | CallAlways val
  | CallResolve "val list"
  | CallResolveWith val "val list"
  | CallRejectWith "val list"
  | CallReject val "val list"

datatype ending = Return val | Raise val

type_synonym behaviour = "nat \<Rightarrow> val \<Rightarrow> val list \<Rightarrow> action list \<times> ending"

fun perform :: "invoker \<Rightarrow> action \<Rightarrow> world \<Rightarrow> unit outcome" where
  "perform ap (CallDone cb) w = Deferred_done ap cb w"
| "perform ap (CallFail cb) w = Deferred_fail ap cb w"
| "perform ap (CallAlways cb) w = Deferred_always ap cb w"
| "perform ap (CallResolve vs) w = Deferred_resolve ap vs w"
| "perform ap (CallResolveWith c vs) w = Deferred_resolveWith ap c vs w"
| "perform ap (CallRejectWith vs) w = Deferred_rejectWith ap vs w"
| "perform ap (CallReject c vs) w = Deferred_reject c vs w"

fun perform_all :: "invoker \<Rightarrow> action list \<Rightarrow> world \<Rightarrow> unit outcome" where
  "perform_all ap [] w = Some (Normal (), w)"
| "perform_all ap (x # xs) w = and_then (perform ap x w) (\<lambda>_ w'. perform_all ap xs w')"

definition finish :: "ending \<Rightarrow> world \<Rightarrow> val outcome" where
  "finish e w = (case e of Return v \<Rightarrow> Some (Normal v, w) | Raise x \<Rightarrow> Some (Throw x, w))"

text \<open>
  Applying user functions whose bodies are given by \<open>env\<close>, with room for \<open>n\<close> nested
  applications on the stack: none left, and the application does not return.
\<close>

primrec user_apply :: "nat \<Rightarrow> behaviour \<Rightarrow> invoker" where
  "user_apply 0 env f c xs w = None"
| "user_apply (Suc n) env f c xs w =
     and_then (perform_all (user_apply n env) (fst (env f c xs)) w)
       (\<lambda>_ w'. finish (snd (env f c xs)) w')"

text \<open>
  The plain callback: it returns \<open>ret f c xs\<close> (\<open>Undefined\<close> for nothing) and leaves the
  object alone.
\<close>

definition plain :: "(nat \<Rightarrow> val \<Rightarrow> val list \<Rightarrow> val) \<Rightarrow> invoker" where
  "plain ret f c xs w = Some (Normal (ret f c xs), w)"

section \<open>Vocabulary of the statements\<close>

subsection \<open>What stays fixed once the object is settled\<close>

text \<open>
  Two \<open>arguments\<close> objects of the same shape: the same \<open>length\<close> and the same values at the
  indices from 1 on. Index 0 is the one \<open>call\<close> writes.
\<close>

definition same_shape :: "arguments \<Rightarrow> arguments \<Rightarrow> bool" where
  "same_shape a a' \<longleftrightarrow>
     arg_length a' = arg_length a \<and> drop 1 (arg_items a') = drop 1 (arg_items a)"

text \<open>
  \<open>frame w w'\<close>: from \<open>w\<close> to \<open>w'\<close> the state, the context, the reference in \<open>args\<close> and
  \<open>events\<close> are unchanged, no \<open>arguments\<close> object was created or changed in shape, and the
  log grew only by applications made while the object was in the state of \<open>w\<close>.
\<close>

definition frame :: "world \<Rightarrow> world \<Rightarrow> bool" where
  "frame w w' \<longleftrightarrow>
     state w' = state w \<and> ctxt w' = ctxt w \<and> args w' = args w \<and> events w' = events w \<and>
     length (heap w') = length (heap w) \<and>
     (\<forall>r. same_shape (heap w ! r) (heap w' ! r)) \<and>
     (\<exists>es. calls w' = calls w @ es \<and>
        (\<forall>e \<in> set es. seen_state e = state w \<and> seen_purged e = (events w = None)))"

text \<open>An invoker is tame when its user functions keep the frame of a settled object.\<close>

definition tame :: "invoker \<Rightarrow> bool" where
  "tame ap \<longleftrightarrow>
     (\<forall>f c xs w r w'. state w \<noteq> PENDING \<longrightarrow> ap f c xs w = Some (r, w') \<longrightarrow> frame w w')"

text \<open>
  The worlds a program can reach from \<open>new Deferred()\<close>: queues while pending; no queues
  and a stored \<open>arguments\<close> object once settled.
\<close>

definition well_formed :: "world \<Rightarrow> bool" where
  "well_formed w \<longleftrightarrow>
     (if state w = PENDING then events w \<noteq> None
      else events w = None \<and> (\<exists>r. args w = Some r \<and> r < length (heap w)))"

subsection \<open>Callbacks that return\<close>

text \<open>The functions a target holds, in the order \<open>call\<close> reaches them.\<close>

fun fns :: "val \<Rightarrow> nat list" and fns_each :: "val list \<Rightarrow> nat list" where
  "fns (Fun f) = [f]"
| "fns (Arr xs) = fns_each xs"
| "fns Undefined = []"
| "fns Null = []"
| "fns (Bool b) = []"
| "fns (Num n) = []"
| "fns (Str s) = []"
| "fns (Obj k) = []"
| "fns_each [] = []"
| "fns_each (x # xs) = fns x @ fns_each xs"

text \<open>
  One callback of a batch, \<open>ret\<close> giving what each function returns: the \<open>arguments\<close>
  object after function \<open>f\<close> has been applied to it with receiver \<open>c\<close>.
\<close>

definition onion_step :: "(nat \<Rightarrow> val \<Rightarrow> val list \<Rightarrow> val) \<Rightarrow> val \<Rightarrow> nat \<Rightarrow> arguments \<Rightarrow> arguments" where
  "onion_step ret c f a =
     (if ret f c (array_like a) \<noteq> Undefined then set_index0 (ret f c (array_like a)) a else a)"

text \<open>The \<open>arguments\<close> object after the functions \<open>fs\<close>, applied in order.\<close>

fun onion :: "(nat \<Rightarrow> val \<Rightarrow> val list \<Rightarrow> val) \<Rightarrow> val \<Rightarrow> nat list \<Rightarrow> arguments \<Rightarrow> arguments" where
  "onion ret c [] a = a"
| "onion ret c (f # fs) a = onion ret c fs (onion_step ret c f a)"

text \<open>The log records of applying the functions \<open>fs\<close> in order, to the object as it then is.\<close>

fun firing :: "(nat \<Rightarrow> val \<Rightarrow> val list \<Rightarrow> val) \<Rightarrow> val \<Rightarrow> state \<Rightarrow> bool \<Rightarrow> nat list \<Rightarrow> arguments
    \<Rightarrow> invocation list" where
  "firing ret c st pg [] a = []"
| "firing ret c st pg (f # fs) a =
     \<lparr>callee = f, receiver = c, passed = array_like a, seen_state = st, seen_purged = pg\<rparr>
       # firing ret c st pg fs (onion_step ret c f a)"

text \<open>What the function of a log record returned.\<close>

definition returned :: "(nat \<Rightarrow> val \<Rightarrow> val list \<Rightarrow> val) \<Rightarrow> invocation \<Rightarrow> val" where
  "returned ret e = ret (callee e) (receiver e) (passed e)"

text \<open>
  The value most recently returned in a stretch of the log, \<open>v\<close> when no function of the
  stretch returned one.
\<close>

fun latest :: "(nat \<Rightarrow> val \<Rightarrow> val list \<Rightarrow> val) \<Rightarrow> invocation list \<Rightarrow> val \<Rightarrow> val" where
  "latest ret [] v = v"
| "latest ret (e # es) v = latest ret es (if returned ret e \<noteq> Undefined then returned ret e else v)"

subsection \<open>Sequences of method calls\<close>

text \<open>The calls of \<open>done\<close>, \<open>fail\<close> and \<open>always\<close>, and the targets a sequence registers with each.\<close>

fun is_registration :: "action \<Rightarrow> bool" where
  "is_registration (CallDone cb) = True"
| "is_registration (CallFail cb) = True"
| "is_registration (CallAlways cb) = True"
| "is_registration _ = False"

fun done_targets :: "action list \<Rightarrow> val list" where
  "done_targets [] = []"
| "done_targets (CallDone cb # xs) = cb # done_targets xs"
| "done_targets (x # xs) = done_targets xs"

fun fail_targets :: "action list \<Rightarrow> val list" where
  "fail_targets [] = []"
| "fail_targets (CallFail cb # xs) = cb # fail_targets xs"
| "fail_targets (x # xs) = fail_targets xs"

fun always_targets :: "action list \<Rightarrow> val list" where
  "always_targets [] = []"
| "always_targets (CallAlways cb # xs) = cb # always_targets xs"
| "always_targets (x # xs) = always_targets xs"

text \<open>The queues \<open>ev\<close> after the registrations \<open>regs\<close> on a pending object.\<close>

definition queued :: "event_queues \<Rightarrow> action list \<Rightarrow> event_queues" where
  "queued ev regs =
     ev\<lparr>ev_done := ev_done ev @ done_targets regs,
        ev_fail := ev_fail ev @ fail_targets regs,
        ev_always := ev_always ev @ always_targets regs\<rparr>"

text \<open>
  The targets a sequence of method calls fires at once on an object in state \<open>st\<close>: those
  of \<open>done\<close> when resolved, of \<open>fail\<close> when rejected, of \<open>always\<close> when settled.
\<close>

fun fired_targets :: "state \<Rightarrow> action list \<Rightarrow> val list" where
  "fired_targets st [] = []"
| "fired_targets st (CallDone cb # xs) =
     (if st = RESOLVED then cb # fired_targets st xs else fired_targets st xs)"
| "fired_targets st (CallFail cb # xs) =
     (if st = REJECTED then cb # fired_targets st xs else fired_targets st xs)"
| "fired_targets st (CallAlways cb # xs) =
     (if st \<noteq> PENDING then cb # fired_targets st xs else fired_targets st xs)"
| "fired_targets st (x # xs) = fired_targets st xs"

text \<open>
  The settlement calls that fire, with the state, the context and the values they settle
  a pending object to; \<open>c0\<close> is the context the object has before the call. \<open>reject\<close> is
  not among them: on a pending object it never gets as far.
\<close>

fun settlement :: "action \<Rightarrow> val \<Rightarrow> (state \<times> val \<times> val list) option" where
  "settlement (CallResolve vs) c0 = Some (RESOLVED, c0, vs)"
| "settlement (CallResolveWith c vs) c0 = Some (RESOLVED, c, vs)"
| "settlement (CallRejectWith vs) c0 = Some (REJECTED, c0, vs)"
| "settlement (CallReject c vs) c0 = None"
| "settlement (CallDone cb) c0 = None"
| "settlement (CallFail cb) c0 = None"
| "settlement (CallAlways cb) c0 = None"

text \<open>The queue a settlement fires before the always queue.\<close>

definition primary_queue :: "state \<Rightarrow> event_queues \<Rightarrow> val list" where
  "primary_queue st ev = (if st = RESOLVED then ev_done ev else ev_fail ev)"

fun is_settlement :: "action \<Rightarrow> bool" where
  "is_settlement (CallResolve vs) = True"
| "is_settlement (CallResolveWith c vs) = True"
| "is_settlement (CallRejectWith vs) = True"
| "is_settlement (CallReject c vs) = True"
| "is_settlement (CallDone cb) = False"
| "is_settlement (CallFail cb) = False"
| "is_settlement (CallAlways cb) = False"

subsection \<open>Targets that are neither functions nor arrays\<close>

fun is_junk :: "val \<Rightarrow> bool" where
  "is_junk (Fun f) = False"
| "is_junk (Arr xs) = False"
| "is_junk v = True"

text \<open>A target with such elements removed, at every depth of nesting.\<close>

fun prune :: "val \<Rightarrow> val" and prune_each :: "val list \<Rightarrow> val list" where
  "prune (Arr xs) = Arr (prune_each xs)"
| "prune (Fun f) = Fun f"
| "prune Undefined = Undefined"
| "prune Null = Null"
| "prune (Bool b) = Bool b"
| "prune (Num n) = Num n"
| "prune (Str s) = Str s"
| "prune (Obj k) = Obj k"
| "prune_each [] = []"
| "prune_each (x # xs) = (if is_junk x then prune_each xs else prune x # prune_each xs)"

text \<open>
  Two sets of queues that hold the same callbacks: they differ at most in elements that
  are neither functions nor arrays.
\<close>

definition same_callbacks :: "event_queues \<Rightarrow> event_queues \<Rightarrow> bool" where
  "same_callbacks q q' \<longleftrightarrow>
     prune_each (ev_done q) = prune_each (ev_done q') \<and>
     prune_each (ev_fail q) = prune_each (ev_fail q') \<and>
     prune_each (ev_always q) = prune_each (ev_always q')"

subsection \<open>Callbacks without their settlement calls\<close>


text \<open>The behaviour \<open>env\<close> with every settlement call deleted from every function body.\<close>

definition without_settlement :: "behaviour \<Rightarrow> behaviour" where
  "without_settlement env f c xs =
     (filter (\<lambda>a. \<not> is_settlement a) (fst (env f c xs)), snd (env f c xs))"

section \<open>Example objects and callbacks\<close>

text \<open>The object after \<open>new Deferred().resolve(1)\<close>.\<close>

definition resolved_with_1 :: world where
  "resolved_with_1 =
     \<lparr>state = RESOLVED, ctxt = Null, args = Some 0, events = None,
      heap = [new_arguments [Num 1]], calls = []\<rparr>"

text \<open>Callbacks that return nothing.\<close>

definition silent :: "nat \<Rightarrow> val \<Rightarrow> val list \<Rightarrow> val" where
  "silent f c xs = Undefined"

text \<open>Function 0 returns 2, every other function returns nothing.\<close>

definition two_then_nothing :: "nat \<Rightarrow> val \<Rightarrow> val list \<Rightarrow> val" where
  "two_then_nothing f c xs = (if f = 0 then Num 2 else Undefined)"

text \<open>A pending object with one callback in each queue.\<close>

definition pending_with_three :: world where
  "pending_with_three =
     \<lparr>state = PENDING, ctxt = Null, args = None,
      events = Some \<lparr>ev_done = [Fun 0], ev_fail = [Fun 1], ev_always = [Fun 2]\<rparr>,
      heap = [], calls = []\<rparr>"

text \<open>The object after \<open>new Deferred().rejectWith('x')\<close>.\<close>

definition rejected_with_x :: world where
  "rejected_with_x =
     \<lparr>state = REJECTED, ctxt = Null, args = Some 0, events = None,
      heap = [new_arguments [Str ''x'']], calls = []\<rparr>"

text \<open>Function 0 returns 2, function 1 returns 3, every other function returns nothing.\<close>

definition two_three_nothing :: "nat \<Rightarrow> val \<Rightarrow> val list \<Rightarrow> val" where
  "two_three_nothing f c xs = (if f = 0 then Num 2 else if f = 1 then Num 3 else Undefined)"

text \<open>A pending object with \<open>done(f0)\<close> and \<open>always([f1, f2])\<close> registered.\<close>

definition pending_done_always2 :: world where
  "pending_done_always2 =
     \<lparr>state = PENDING, ctxt = Null, args = None,
      events = Some \<lparr>ev_done = [Fun 0], ev_fail = [], ev_always = [Arr [Fun 1, Fun 2]]\<rparr>,
      heap = [], calls = []\<rparr>"

text \<open>
  The object after \<open>new Deferred().resolve(1).done(f0)\<close>, where \<open>f0\<close> returned 2.
\<close>

definition resolved_1_then_2 :: world where
  "resolved_1_then_2 =
     \<lparr>state = RESOLVED, ctxt = Null, args = Some 0, events = None,
      heap = [\<lparr>arg_length = 1, arg_items = [Num 2]\<rparr>],
      calls = [\<lparr>callee = 0, receiver = Null, passed = [Num 1], seen_state = RESOLVED,
                 seen_purged = True\<rparr>]\<rparr>"




section \<open>Lemmas\<close>

subsection \<open>Completions\<close>

lemma array_like_new [simp]: "array_like (new_arguments vs) = vs"
  by (simp add: array_like_def new_arguments_def)

lemma and_then_Some_iff:
  "and_then m k = Some y \<longleftrightarrow>
     (\<exists>e w. m = Some (Throw e, w) \<and> y = (Throw e, w)) \<or> (\<exists>x w. m = Some (Normal x, w) \<and> k x w = Some y)"
  by (cases "(m, k)" rule: and_then.cases) auto

lemma and_then_cong_on:
  assumes "\<And>x u. m = Some (Normal x, u) \<Longrightarrow> k x u = k' x u"
  shows "and_then m k = and_then m k'"
  using assms by (cases "(m, k)" rule: and_then.cases) auto

subsection \<open>The recursion of reject\<close>

text \<open>
  If \<open>reject\<close> returns, the object was settled when it was called: by induction over the
  recursion, a pending object stays pending in the recursive call.
\<close>

lemma reject_returns_settled:
  assumes "Deferred_reject c vs w = Some y"
  shows "state w \<noteq> PENDING"
proof (rule Deferred_reject.raw_induct[where P = "\<lambda>c vs w y. state w \<noteq> PENDING", OF _ assms])
  fix rej :: "val \<Rightarrow> val list \<Rightarrow> world \<Rightarrow> unit outcome" and c vs w y
  assume ih: "\<And>c vs w y. rej c vs w = Some y \<Longrightarrow> state w \<noteq> PENDING"
    and eq: "(if state w = PENDING then rej (first_arg vs) (drop 1 vs) (w\<lparr>ctxt := c\<rparr>)
              else Some (Normal (), w)) = Some y"
  show "state w \<noteq> PENDING"
  proof
    assume p: "state w = PENDING"
    with eq have "rej (first_arg vs) (drop 1 vs) (w\<lparr>ctxt := c\<rparr>) = Some y" by simp
    from ih[OF this] p show False by simp
  qed
qed

lemma reject_pending_diverges: "state w = PENDING \<Longrightarrow> Deferred_reject c vs w = None"
  using reject_returns_settled[of c vs w] by (cases "Deferred_reject c vs w") auto

lemma reject_settled: "state w \<noteq> PENDING \<Longrightarrow> Deferred_reject c vs w = Some (Normal (), w)"
  by (subst Deferred_reject.simps) simp

subsection \<open>The frame of a settled object\<close>

lemma same_shape_refl [simp]: "same_shape a a"
  by (simp add: same_shape_def)

lemma same_shape_trans: "same_shape a b \<Longrightarrow> same_shape b c \<Longrightarrow> same_shape a c"
  by (simp add: same_shape_def)

lemma same_shape_set_index0 [simp]: "same_shape a (set_index0 v a)"
  by (simp add: same_shape_def set_index0_def split: list.splits)

lemma frame_refl [simp]: "frame w w"
  by (simp add: frame_def)

lemma frame_trans: "frame w u \<Longrightarrow> frame u v \<Longrightarrow> frame w v"
  unfolding frame_def
  apply (elim conjE exE)
  apply (intro conjI)
        apply simp_all
   apply (blast intro: same_shape_trans)
  apply auto
  done

lemma frame_log_call: "frame w (log_call f c xs w)"
  by (simp add: frame_def log_call_def)

lemma same_shape_update: "same_shape (h ! r) (h[x := set_index0 v (h ! x)] ! r)"
  by (cases "r = x"; cases "x < length h") (simp_all add: list_update_beyond)

lemma frame_assign_index0: "assign_index0 a v w = Some (r, w') \<Longrightarrow> frame w w'"
  by (auto simp: frame_def assign_index0_def same_shape_update split: option.splits)

text \<open>
  \<open>call\<close> keeps the frame of a settled object when the user functions do: it writes
  index 0 of the \<open>arguments\<close> object and the log, nothing else.
\<close>

lemma call_frame:
  assumes "tame ap"
  shows "state w \<noteq> PENDING \<Longrightarrow> call ap t c a w = Some (r, w') \<Longrightarrow> frame w w'"
    and "state w \<noteq> PENDING \<Longrightarrow> call_each ap ts c a w = Some (r, w') \<Longrightarrow> frame w w'"
  using assms
proof (induction ap t c a w and ap ts c a w arbitrary: r w' and r w' rule: call_call_each.induct)
  case (1 ap f c a w)
  let ?w1 = "log_call f c (apply_args a w) w"
  have f1: "frame w ?w1" by (rule frame_log_call)
  have s1: "state ?w1 \<noteq> PENDING" using 1(1) by (simp add: log_call_def)
  from 1(2) consider
      (thrown) e where "ap f c (apply_args a w) ?w1 = Some (Throw e, w')"
    | (ret) v u where "ap f c (apply_args a w) ?w1 = Some (Normal v, u)"
        "(if v \<noteq> Undefined then assign_index0 a v u else Some (Normal (), u)) = Some (r, w')"
    by (auto simp: and_then_Some_iff)
  then show ?case
  proof cases
    case thrown
    with 1(3) s1 have "frame ?w1 w'" unfolding tame_def by blast
    with f1 show ?thesis by (rule frame_trans)
  next
    case ret
    with 1(3) s1 have f2: "frame ?w1 u" unfolding tame_def by blast
    have "frame u w'" using ret(2) by (auto split: if_splits dest: frame_assign_index0)
    with f1 f2 show ?thesis by (blast intro: frame_trans)
  qed
next
  case (10 ap x xs c a w)
  from 10(4) consider
      (thrown) e where "call ap x c a w = Some (Throw e, w')"
    | (ret) u where "call ap x c a w = Some (Normal (), u)" "call_each ap xs c a u = Some (r, w')"
    by (auto simp: and_then_Some_iff)
  then show ?case
  proof cases
    case thrown
    then show ?thesis using 10(1)[OF 10(3)] 10(5) by blast
  next
    case ret
    have f1: "frame w u" using 10(1)[OF 10(3) ret(1) 10(5)] .
    then have "state u \<noteq> PENDING" using 10(3) by (simp add: frame_def)
    from 10(2)[OF this ret(2) 10(5)] f1 show ?thesis by (blast intro: frame_trans)
  qed
qed auto

lemma settled_resolve: "state w \<noteq> PENDING \<Longrightarrow> Deferred_resolve ap vs w = Some (Normal (), w)"
  by (simp add: Deferred_resolve_def)

lemma settled_resolveWith:
  "state w \<noteq> PENDING \<Longrightarrow> Deferred_resolveWith ap c vs w = Some (Normal (), w)"
  by (simp add: Deferred_resolveWith_def)

lemma settled_rejectWith:
  "state w \<noteq> PENDING \<Longrightarrow> Deferred_rejectWith ap vs w = Some (Normal (), w)"
  by (simp add: Deferred_rejectWith_def)

lemma perform_frame:
  assumes "tame ap" "state w \<noteq> PENDING" "perform ap x w = Some (r, w')"
  shows "frame w w'"
proof (cases x)
  case (CallDone cb)
  then show ?thesis using assms
    by (auto simp: Deferred_done_def split: if_splits intro: call_frame(1))
next
  case (CallFail cb)
  then show ?thesis using assms
    by (auto simp: Deferred_fail_def split: if_splits intro: call_frame(1))
next
  case (CallAlways cb)
  then show ?thesis using assms
    by (auto simp: Deferred_always_def split: if_splits intro: call_frame(1))
next
  case (CallResolve vs)
  then show ?thesis using assms by (simp add: settled_resolve)
next
  case (CallResolveWith c vs)
  then show ?thesis using assms by (simp add: settled_resolveWith)
next
  case (CallRejectWith vs)
  then show ?thesis using assms by (simp add: settled_rejectWith)
next
  case (CallReject c vs)
  then show ?thesis using assms by (simp add: reject_settled)
qed

lemma perform_all_frame:
  "tame ap \<Longrightarrow> state w \<noteq> PENDING \<Longrightarrow> perform_all ap xs w = Some (r, w') \<Longrightarrow> frame w w'"
proof (induction xs arbitrary: w)
  case Nil
  then show ?case by simp
next
  case (Cons x xs)
  from Cons.prems(3) consider
      (thrown) e where "perform ap x w = Some (Throw e, w')"
    | (ret) u where "perform ap x w = Some (Normal (), u)" "perform_all ap xs u = Some (r, w')"
    by (auto simp: and_then_Some_iff)
  then show ?case
  proof cases
    case thrown
    then show ?thesis using Cons.prems(1,2) by (rule perform_frame[rotated 2])
  next
    case ret
    have f1: "frame w u" using Cons.prems(1,2) ret(1) by (rule perform_frame)
    then have "state u \<noteq> PENDING" using Cons.prems(2) by (simp add: frame_def)
    from Cons.IH[OF Cons.prems(1) this ret(2)] f1 show ?thesis by (blast intro: frame_trans)
  qed
qed

lemma finish_world: "finish e w = Some (r, w') \<Longrightarrow> w' = w"
  by (auto simp: finish_def split: ending.splits)

text \<open>
  User functions that act on the object through its methods are tame, whatever their
  bodies: by induction on the depth of the stack.
\<close>

lemma tame_user_apply: "tame (user_apply n env)"
proof (induction n)
  case 0
  show ?case by (simp add: tame_def)
next
  case (Suc n)
  show ?case unfolding tame_def
  proof (intro allI impI)
    fix f c xs w r w'
    assume s: "state w \<noteq> PENDING" and eq: "user_apply (Suc n) env f c xs w = Some (r, w')"
    from eq consider
        (thrown) e where "perform_all (user_apply n env) (fst (env f c xs)) w = Some (Throw e, w')"
      | (ret) u where "perform_all (user_apply n env) (fst (env f c xs)) w = Some (Normal (), u)"
          "finish (snd (env f c xs)) u = Some (r, w')"
      by (auto simp: and_then_Some_iff)
    then show "frame w w'"
    proof cases
      case thrown
      with Suc s show ?thesis by (blast intro: perform_all_frame)
    next
      case ret
      from ret(2) have "w' = u" by (rule finish_world)
      with Suc s ret(1) show ?thesis by (blast intro: perform_all_frame)
    qed
  qed
qed

lemma tame_plain: "tame (plain ret)"
  by (auto simp: tame_def plain_def)

lemma plain_is_user_apply:
  "plain ret = user_apply (Suc n) (\<lambda>f c xs. ([], Return (ret f c xs)))"
  by (intro ext) (simp add: plain_def finish_def)

subsection \<open>The firing of callbacks that return\<close>

lemma onion_append: "onion ret c (fs @ gs) a = onion ret c gs (onion ret c fs a)"
  by (induction fs arbitrary: a) simp_all

lemma firing_append:
  "firing ret c st pg (fs @ gs) a = firing ret c st pg fs a @ firing ret c st pg gs (onion ret c fs a)"
  by (induction fs arbitrary: a) simp_all

lemma fns_each_append: "fns_each (xs @ ys) = fns_each xs @ fns_each ys"
  by (induction xs) simp_all

lemma call_plain_Fun:
  "r < length (heap w) \<Longrightarrow>
   call (plain ret) (Fun f) c (Some r) w =
     Some (Normal (), w\<lparr>heap := (heap w)[r := onion_step ret c f (heap w ! r)],
                         calls := calls w @ firing ret c (state w) (events w = None) [f] (heap w ! r)\<rparr>)"
  by (simp add: plain_def apply_args_def log_call_def assign_index0_def onion_step_def)

lemma call_plain:
  shows "r < length (heap w) \<Longrightarrow>
     call (plain ret) t c (Some r) w =
       Some (Normal (), w\<lparr>heap := (heap w)[r := onion ret c (fns t) (heap w ! r)],
                           calls := calls w @ firing ret c (state w) (events w = None) (fns t) (heap w ! r)\<rparr>)"
    and "r < length (heap w) \<Longrightarrow>
     call_each (plain ret) ts c (Some r) w =
       Some (Normal (), w\<lparr>heap := (heap w)[r := onion ret c (fns_each ts) (heap w ! r)],
                           calls := calls w @ firing ret c (state w) (events w = None) (fns_each ts) (heap w ! r)\<rparr>)"
proof (induction t and ts arbitrary: w and w rule: fns_fns_each.induct)
  case (1 f)
  then show ?case by (simp add: call_plain_Fun del: call.simps)
next
  case (10 x xs)
  show ?case using "10.prems"
    by (simp add: "10.IH"(1)[OF "10.prems"] "10.IH"(2) onion_append firing_append)
qed simp_all

subsection \<open>Registrations on a pending object, and settlement\<close>

lemma queued_Nil [simp]: "queued ev [] = ev"
  by (simp add: queued_def)

lemma register_pending:
  "list_all is_registration regs \<Longrightarrow> state w = PENDING \<Longrightarrow> events w = Some ev \<Longrightarrow>
   perform_all ap regs w = Some (Normal (), w\<lparr>events := Some (queued ev regs)\<rparr>)"
proof (induction regs arbitrary: w ev)
  case Nil
  then show ?case by simp
next
  case (Cons x xs)
  show ?case
  proof (cases x)
    case (CallDone cb)
    let ?ev = "ev\<lparr>ev_done := ev_done ev @ [cb]\<rparr>"
    have "perform_all ap xs (w\<lparr>events := Some ?ev\<rparr>)
            = Some (Normal (), w\<lparr>events := Some ?ev\<rparr>\<lparr>events := Some (queued ?ev xs)\<rparr>)"
      using Cons.prems by (intro Cons.IH) simp_all
    then show ?thesis using Cons.prems CallDone
      by (simp add: Deferred_done_def push_done_def queued_def)
  next
    case (CallFail cb)
    let ?ev = "ev\<lparr>ev_fail := ev_fail ev @ [cb]\<rparr>"
    have "perform_all ap xs (w\<lparr>events := Some ?ev\<rparr>)
            = Some (Normal (), w\<lparr>events := Some ?ev\<rparr>\<lparr>events := Some (queued ?ev xs)\<rparr>)"
      using Cons.prems by (intro Cons.IH) simp_all
    then show ?thesis using Cons.prems CallFail
      by (simp add: Deferred_fail_def push_fail_def queued_def)
  next
    case (CallAlways cb)
    let ?ev = "ev\<lparr>ev_always := ev_always ev @ [cb]\<rparr>"
    have "perform_all ap xs (w\<lparr>events := Some ?ev\<rparr>)
            = Some (Normal (), w\<lparr>events := Some ?ev\<rparr>\<lparr>events := Some (queued ?ev xs)\<rparr>)"
      using Cons.prems by (intro Cons.IH) simp_all
    then show ?thesis using Cons.prems CallAlways
      by (simp add: Deferred_always_def push_always_def queued_def)
  qed (use Cons.prems in simp_all)
qed

lemma perform_all_append:
  "perform_all ap (xs @ ys) w = and_then (perform_all ap xs w) (\<lambda>_ u. perform_all ap ys u)"
proof (induction xs arbitrary: w)
  case Nil
  show ?case by simp
next
  case (Cons x xs)
  show ?case
    by (cases "(perform ap x w, \<lambda>(_::unit) u. perform_all ap xs u)" rule: and_then.cases)
       (simp_all add: Cons.IH)
qed

lemma resolve_plain:
  assumes "state w = PENDING" "events w = Some ev"
  shows "Deferred_resolve (plain ret) vs w =
     Some (Normal (),
       w\<lparr>state := RESOLVED, args := Some (length (heap w)), events := None,
          heap := heap w @ [onion ret (ctxt w) (fns_each (ev_done ev) @ fns_each (ev_always ev))
                              (new_arguments vs)],
          calls := calls w @ firing ret (ctxt w) RESOLVED True
                     (fns_each (ev_done ev) @ fns_each (ev_always ev)) (new_arguments vs)\<rparr>)"
  using assms
  by (simp add: Deferred_resolve_def store_arguments_def call_plain(2) onion_append firing_append
      del: call_each.simps)

lemma rejectWith_plain:
  assumes "state w = PENDING" "events w = Some ev"
  shows "Deferred_rejectWith (plain ret) vs w =
     Some (Normal (),
       w\<lparr>state := REJECTED, args := Some (length (heap w)), events := None,
          heap := heap w @ [onion ret (ctxt w) (fns_each (ev_fail ev) @ fns_each (ev_always ev))
                              (new_arguments vs)],
          calls := calls w @ firing ret (ctxt w) REJECTED True
                     (fns_each (ev_fail ev) @ fns_each (ev_always ev)) (new_arguments vs)\<rparr>)"
  using assms
  by (simp add: Deferred_rejectWith_def store_arguments_def call_plain(2) onion_append firing_append
      del: call_each.simps)

lemma callee_firing [simp]: "map callee (firing ret c st pg fs a) = fs"
  by (induction fs arbitrary: a) simp_all

lemma settle_call_same_receiver:
  assumes t: "tame ap" and s: "state w \<noteq> PENDING"
  shows "and_then (call ap x (ctxt w) (args w) w) (\<lambda>_ u. call ap y (ctxt u) (args u) u)
       = and_then (call ap x (ctxt w) (args w) w) (\<lambda>_ u. call ap y (ctxt w) (args w) u)"
proof (rule and_then_cong_on)
  fix z u assume "call ap x (ctxt w) (args w) w = Some (Normal z, u)"
  from call_frame(1)[OF t s this] show "call ap y (ctxt u) (args u) u = call ap y (ctxt w) (args w) u"
    by (simp add: frame_def)
qed

subsection \<open>Reachable worlds\<close>

text \<open>
  Every world reached from \<open>new Deferred()\<close> by method calls is well formed: a pending
  object has its queues, a settled one has a stored \<open>arguments\<close> object and no queues.
\<close>

lemma well_formed_new: "well_formed Deferred_new"
  by (simp add: well_formed_def Deferred_new_def)

lemma frame_well_formed: "frame w w' \<Longrightarrow> well_formed w \<Longrightarrow> well_formed w'"
  by (auto simp: frame_def well_formed_def)

lemma settle_call_frame:
  assumes t: "tame ap" and s: "state w \<noteq> PENDING"
    and r: "and_then (call ap x (ctxt w) (args w) w) (\<lambda>_ u. call ap y (ctxt u) (args u) u) = Some (r, w')"
  shows "frame w w'"
proof -
  from r consider
      (thrown) e where "call ap x (ctxt w) (args w) w = Some (Throw e, w')"
    | (ret) u where "call ap x (ctxt w) (args w) w = Some (Normal (), u)"
        "call ap y (ctxt u) (args u) u = Some (r, w')"
    by (auto simp: and_then_Some_iff)
  then show ?thesis
  proof cases
    case thrown
    with t s show ?thesis by (blast intro: call_frame(1))
  next
    case ret
    have f1: "frame w u" using t s ret(1) by (rule call_frame(1))
    then have "state u \<noteq> PENDING" using s by (simp add: frame_def)
    with t have "frame u w'" using ret(2) by (rule call_frame(1))
    with f1 show ?thesis by (rule frame_trans)
  qed
qed

lemma resolve_pending_frame:
  assumes "tame ap" "state w = PENDING" "events w = Some ev"
    and "Deferred_resolve ap vs w = Some (r, w')"
  shows "frame (w\<lparr>state := RESOLVED, args := Some (length (heap w)),
                  heap := heap w @ [new_arguments vs], events := None\<rparr>) w'"
proof -
  let ?w2 = "w\<lparr>state := RESOLVED, args := Some (length (heap w)),
                heap := heap w @ [new_arguments vs], events := None\<rparr>"
  have "state ?w2 \<noteq> PENDING" by simp
  from settle_call_frame[OF assms(1) this, of "Arr (ev_done ev)" "Arr (ev_always ev)" r w']
  show ?thesis using assms(2-4)
    by (simp add: Deferred_resolve_def store_arguments_def del: call.simps)
qed

lemma rejectWith_pending_frame:
  assumes "tame ap" "state w = PENDING" "events w = Some ev"
    and "Deferred_rejectWith ap vs w = Some (r, w')"
  shows "frame (w\<lparr>state := REJECTED, args := Some (length (heap w)),
                  heap := heap w @ [new_arguments vs], events := None\<rparr>) w'"
proof -
  let ?w2 = "w\<lparr>state := REJECTED, args := Some (length (heap w)),
                heap := heap w @ [new_arguments vs], events := None\<rparr>"
  have "state ?w2 \<noteq> PENDING" by simp
  from settle_call_frame[OF assms(1) this, of "Arr (ev_fail ev)" "Arr (ev_always ev)" r w']
  show ?thesis using assms(2-4)
    by (simp add: Deferred_rejectWith_def store_arguments_def del: call.simps)
qed

lemma resolveWith_pending_frame:
  assumes "tame ap" "state w = PENDING" "events w = Some ev"
    and "Deferred_resolveWith ap c vs w = Some (r, w')"
  shows "frame (w\<lparr>ctxt := c, state := RESOLVED, args := Some (length (heap w)),
                  heap := heap w @ [new_arguments vs], events := None\<rparr>) w'"
  using resolve_pending_frame[OF assms(1), of "w\<lparr>ctxt := c\<rparr>" ev vs r w'] assms(2-4)
  by (simp add: Deferred_resolveWith_def)

lemma perform_well_formed:
  assumes t: "tame ap" and wf: "well_formed w" and p: "perform ap x w = Some (r, w')"
  shows "well_formed w'"
proof (cases "state w = PENDING")
  case False
  with t p have "frame w w'" by (blast intro: perform_frame)
  then show ?thesis using wf by (rule frame_well_formed)
next
  case True
  with wf obtain ev where ev: "events w = Some ev" by (auto simp: well_formed_def)
  show ?thesis
  proof (cases x)
    case (CallDone cb)
    with p True ev show ?thesis
      by (auto simp: Deferred_done_def push_done_def well_formed_def)
  next
    case (CallFail cb)
    with p True ev show ?thesis
      by (auto simp: Deferred_fail_def push_fail_def well_formed_def)
  next
    case (CallAlways cb)
    with p True ev show ?thesis
      by (auto simp: Deferred_always_def push_always_def well_formed_def)
  next
    case (CallResolve vs)
    with p have "Deferred_resolve ap vs w = Some (r, w')" by simp
    from resolve_pending_frame[OF t True ev this] show ?thesis
      by (rule frame_well_formed) (simp add: well_formed_def)
  next
    case (CallResolveWith c vs)
    with p have "Deferred_resolveWith ap c vs w = Some (r, w')" by simp
    from resolveWith_pending_frame[OF t True ev this] show ?thesis
      by (rule frame_well_formed) (simp add: well_formed_def)
  next
    case (CallRejectWith vs)
    with p have "Deferred_rejectWith ap vs w = Some (r, w')" by simp
    from rejectWith_pending_frame[OF t True ev this] show ?thesis
      by (rule frame_well_formed) (simp add: well_formed_def)
  next
    case (CallReject c vs)
    with p True show ?thesis by (simp add: reject_pending_diverges)
  qed
qed

lemma perform_all_well_formed:
  "tame ap \<Longrightarrow> well_formed w \<Longrightarrow> perform_all ap xs w = Some (r, w') \<Longrightarrow> well_formed w'"
proof (induction xs arbitrary: w)
  case Nil
  then show ?case by simp
next
  case (Cons x xs)
  from Cons.prems(3) consider
      (thrown) e where "perform ap x w = Some (Throw e, w')"
    | (ret) u where "perform ap x w = Some (Normal (), u)" "perform_all ap xs u = Some (r, w')"
    by (auto simp: and_then_Some_iff)
  then show ?case
  proof cases
    case thrown
    with Cons.prems(1,2) show ?thesis by (blast intro: perform_well_formed)
  next
    case ret
    have "well_formed u" using Cons.prems(1,2) ret(1) by (rule perform_well_formed)
    from Cons.IH[OF Cons.prems(1) this ret(2)] show ?thesis .
  qed
qed

subsection \<open>Targets that are neither functions nor arrays\<close>

lemma call_junk: "is_junk t \<Longrightarrow> call ap t c a w = Some (Normal (), w)"
  by (cases t) simp_all

lemma call_prune:
  shows "call ap (prune t) c a w = call ap t c a w"
    and "call_each ap (prune_each ts) c a w = call_each ap ts c a w"
proof (induction t and ts arbitrary: w and w rule: prune_prune_each.induct)
  case (10 x xs)
  show ?case
  proof (cases "is_junk x")
    case True
    then show ?thesis using "10.IH"(1) by (simp add: call_junk)
  next
    case False
    have "call_each ap (prune_each xs) c a = call_each ap xs c a"
      by (rule ext) (rule "10.IH"(3)[OF False])
    then show ?thesis using False "10.IH"(2) by simp
  qed
qed simp_all

subsection \<open>What a callback receives\<close>

lemma take_Cons_replicate: "take n (x # replicate n x) = replicate n x"
  by (induction n) simp_all

lemma array_like_set_index0:
  "array_like (set_index0 v a) = (if arg_length a = 0 then [] else v # tl (array_like a))"
  by (cases "arg_length a"; cases "arg_items a")
     (simp_all add: array_like_def set_index0_def take_Cons_replicate)

lemma array_like_length [simp]: "length (array_like a) = arg_length a"
  by (simp add: array_like_def)

lemma arg_length_set_index0 [simp]: "arg_length (set_index0 v a) = arg_length a"
  by (simp add: set_index0_def)

lemma array_like_onion_step:
  "array_like a = x # rest \<Longrightarrow>
   array_like (onion_step ret c f a) =
     (if ret f c (x # rest) \<noteq> Undefined then ret f c (x # rest) else x) # rest"
proof -
  assume a: "array_like a = x # rest"
  then have "arg_length a \<noteq> 0" by (metis array_like_length length_0_conv list.distinct(1))
  with a show ?thesis by (simp add: onion_step_def array_like_set_index0)
qed

lemma array_like_onion_step_empty:
  "array_like a = [] \<Longrightarrow> array_like (onion_step ret c f a) = []"
proof -
  assume a: "array_like a = []"
  then have "arg_length a = 0" by (metis array_like_length list.size(3))
  with a show ?thesis by (simp add: onion_step_def array_like_set_index0)
qed

lemma array_like_onion:
  "array_like a = x # rest \<Longrightarrow>
   array_like (onion ret c fs a) = latest ret (firing ret c st pg fs a) x # rest"
proof (induction fs arbitrary: a x)
  case Nil
  then show ?case by simp
next
  case (Cons f fs)
  let ?x = "if ret f c (x # rest) \<noteq> Undefined then ret f c (x # rest) else x"
  have "array_like (onion_step ret c f a) = ?x # rest"
    using Cons.prems by (rule array_like_onion_step)
  from Cons.IH[OF this] show ?case using Cons.prems by (simp add: returned_def)
qed

lemma array_like_onion_empty:
  "array_like a = [] \<Longrightarrow> array_like (onion ret c fs a) = []"
  by (induction fs arbitrary: a) (simp_all add: array_like_onion_step_empty)

lemma firing_nth_passed:
  "k < length fs \<Longrightarrow>
   firing ret c st pg fs a ! k =
     \<lparr>callee = fs ! k, receiver = c, passed = array_like (onion ret c (take k fs) a),
      seen_state = st, seen_purged = pg\<rparr>"
proof (induction fs arbitrary: a k)
  case Nil
  then show ?case by simp
next
  case (Cons f fs)
  then show ?case by (cases k) simp_all
qed

lemma length_firing [simp]: "length (firing ret c st pg fs a) = length fs"
  by (induction fs arbitrary: a) simp_all

lemma take_firing: "take k (firing ret c st pg fs a) = firing ret c st pg (take k fs) a"
proof (induction fs arbitrary: a k)
  case Nil
  then show ?case by simp
next
  case (Cons f fs)
  then show ?case by (cases k) simp_all
qed

lemma firing_passed_latest:
  assumes "array_like a = x # rest" "k < length fs"
  shows "passed (firing ret c st pg fs a ! k) = latest ret (take k (firing ret c st pg fs a)) x # rest"
  using assms by (simp add: firing_nth_passed take_firing array_like_onion[where st = st and pg = pg])

lemma firing_passed_empty:
  assumes "array_like a = []" "k < length fs"
  shows "passed (firing ret c st pg fs a ! k) = []"
  using assms by (simp add: firing_nth_passed array_like_onion_empty)

lemma firing_seen: "e \<in> set (firing ret c st pg fs a) \<Longrightarrow>
    receiver e = c \<and> seen_state e = st \<and> seen_purged e = pg"
  by (induction fs arbitrary: a) auto

subsection \<open>Method calls on a settled object\<close>

lemma perform_plain_settled:
  assumes "state w \<noteq> PENDING" "args w = Some r" "r < length (heap w)"
  shows "perform (plain ret) x w =
     Some (Normal (),
       w\<lparr>heap := (heap w)[r := onion ret (ctxt w) (fns_each (fired_targets (state w) [x])) (heap w ! r)],
          calls := calls w @ firing ret (ctxt w) (state w) (events w = None)
                     (fns_each (fired_targets (state w) [x])) (heap w ! r)\<rparr>)"
proof (cases x)
  case (CallDone cb)
  then show ?thesis using assms by (simp add: Deferred_done_def call_plain(1) del: call.simps)
next
  case (CallFail cb)
  then show ?thesis using assms by (simp add: Deferred_fail_def call_plain(1) del: call.simps)
next
  case (CallAlways cb)
  then show ?thesis using assms by (simp add: Deferred_always_def call_plain(1) del: call.simps)
next
  case (CallResolve vs)
  then show ?thesis using assms by (simp add: settled_resolve)
next
  case (CallResolveWith c vs)
  then show ?thesis using assms by (simp add: settled_resolveWith)
next
  case (CallRejectWith vs)
  then show ?thesis using assms by (simp add: settled_rejectWith)
next
  case (CallReject c vs)
  then show ?thesis using assms by (simp add: reject_settled)
qed

lemma fired_targets_Cons: "fired_targets st (x # xs) = fired_targets st [x] @ fired_targets st xs"
  by (cases x) simp_all

lemma perform_all_plain_settled:
  assumes "state w \<noteq> PENDING" "args w = Some r" "r < length (heap w)"
  shows "perform_all (plain ret) xs w =
     Some (Normal (),
       w\<lparr>heap := (heap w)[r := onion ret (ctxt w) (fns_each (fired_targets (state w) xs)) (heap w ! r)],
          calls := calls w @ firing ret (ctxt w) (state w) (events w = None)
                     (fns_each (fired_targets (state w) xs)) (heap w ! r)\<rparr>)"
  using assms
proof (induction xs arbitrary: w)
  case Nil
  then show ?case by simp
next
  case (Cons x xs)
  let ?F = "fns_each (fired_targets (state w) [x])"
  let ?u = "w\<lparr>heap := (heap w)[r := onion ret (ctxt w) ?F (heap w ! r)],
          calls := calls w @ firing ret (ctxt w) (state w) (events w = None) ?F (heap w ! r)\<rparr>"
  have p: "perform (plain ret) x w = Some (Normal (), ?u)"
    using Cons.prems by (rule perform_plain_settled)
  have "perform_all (plain ret) xs ?u = Some (Normal (),
       ?u\<lparr>heap := (heap ?u)[r := onion ret (ctxt ?u) (fns_each (fired_targets (state ?u) xs)) (heap ?u ! r)],
          calls := calls ?u @ firing ret (ctxt ?u) (state ?u) (events ?u = None)
                     (fns_each (fired_targets (state ?u) xs)) (heap ?u ! r)\<rparr>)"
    using Cons.prems by (intro Cons.IH) simp_all
  with p show ?case using Cons.prems(3)
    by (simp add: fired_targets_Cons[of _ x xs] fns_each_append onion_append firing_append)
qed

lemma resolveWith_plain:
  assumes "state w = PENDING" "events w = Some ev"
  shows "Deferred_resolveWith (plain ret) c vs w =
     Some (Normal (),
       w\<lparr>state := RESOLVED, ctxt := c, args := Some (length (heap w)), events := None,
          heap := heap w @ [onion ret c (fns_each (ev_done ev) @ fns_each (ev_always ev))
                              (new_arguments vs)],
          calls := calls w @ firing ret c RESOLVED True
                     (fns_each (ev_done ev) @ fns_each (ev_always ev)) (new_arguments vs)\<rparr>)"
  using assms resolve_plain[of "w\<lparr>ctxt := c\<rparr>" ev ret vs]
  by (simp add: Deferred_resolveWith_def)

lemma settle_plain:
  assumes "settlement s (ctxt w) = Some (st, c, vs)" "state w = PENDING" "events w = Some ev"
  shows "perform (plain ret) s w =
     Some (Normal (),
       w\<lparr>state := st, ctxt := c, args := Some (length (heap w)), events := None,
          heap := heap w @ [onion ret c (fns_each (primary_queue st ev) @ fns_each (ev_always ev))
                              (new_arguments vs)],
          calls := calls w @ firing ret c st True
                     (fns_each (primary_queue st ev) @ fns_each (ev_always ev)) (new_arguments vs)\<rparr>)"
proof (cases s)
  case (CallResolve xs)
  with assms show ?thesis by (auto simp: resolve_plain primary_queue_def)
next
  case (CallResolveWith c' xs)
  with assms show ?thesis by (auto simp: resolveWith_plain primary_queue_def)
next
  case (CallRejectWith xs)
  with assms show ?thesis by (auto simp: rejectWith_plain primary_queue_def)
qed (use assms in simp_all)

lemma settle_then_plain:
  assumes "settlement s (ctxt w) = Some (st, c, vs)" "state w = PENDING" "events w = Some ev"
  shows "perform_all (plain ret) (s # post) w =
     Some (Normal (),
       w\<lparr>state := st, ctxt := c, args := Some (length (heap w)), events := None,
          heap := heap w @ [onion ret c (fns_each (primary_queue st ev) @ fns_each (ev_always ev)
                                          @ fns_each (fired_targets st post))
                              (new_arguments vs)],
          calls := calls w @ firing ret c st True
                     (fns_each (primary_queue st ev) @ fns_each (ev_always ev)
                        @ fns_each (fired_targets st post)) (new_arguments vs)\<rparr>)"
proof -
  let ?F = "fns_each (primary_queue st ev) @ fns_each (ev_always ev)"
  let ?u = "w\<lparr>state := st, ctxt := c, args := Some (length (heap w)), events := None,
          heap := heap w @ [onion ret c ?F (new_arguments vs)],
          calls := calls w @ firing ret c st True ?F (new_arguments vs)\<rparr>"
  have st: "st \<noteq> PENDING" using assms(1) by (cases s) auto
  have p: "perform (plain ret) s w = Some (Normal (), ?u)" using assms by (rule settle_plain)
  have "perform_all (plain ret) post ?u =
     Some (Normal (),
       ?u\<lparr>heap := (heap ?u)[length (heap w) :=
                 onion ret (ctxt ?u) (fns_each (fired_targets (state ?u) post)) (heap ?u ! length (heap w))],
          calls := calls ?u @ firing ret (ctxt ?u) (state ?u) (events ?u = None)
                     (fns_each (fired_targets (state ?u) post)) (heap ?u ! length (heap w))\<rparr>)"
    using st by (intro perform_all_plain_settled) simp_all
  with p show ?thesis by (simp add: onion_append firing_append)
qed

lemma latest_append: "latest ret (xs @ ys) v = latest ret ys (latest ret xs v)"
  by (induction xs arbitrary: v) simp_all

lemma latest_silent: "(\<And>e. e \<in> set es \<Longrightarrow> returned ret e = Undefined) \<Longrightarrow> latest ret es v = v"
  by (induction es arbitrary: v) simp_all

subsection \<open>Invokers that agree on settled objects\<close>






lemma settled_settlement_perform:
  "is_settlement x \<Longrightarrow> state w \<noteq> PENDING \<Longrightarrow> perform ap x w = Some (Normal (), w)"
  by (cases x) (simp_all add: settled_resolve settled_resolveWith settled_rejectWith reject_settled)


lemma without_settlement_simps [simp]:
  "fst (without_settlement env f c xs) = filter (\<lambda>a. \<not> is_settlement a) (fst (env f c xs))"
  "snd (without_settlement env f c xs) = snd (env f c xs)"
  by (simp_all add: without_settlement_def)


subsection \<open>The object after a settlement that fires\<close>


text \<open>
  The three other settlement operations return on every reachable object, when the
  callbacks do.
\<close>

lemma other_settlements_return:
  assumes "well_formed w" "x = CallResolve vs \<or> x = CallResolveWith c vs \<or> x = CallRejectWith vs"
  shows "\<exists>u. perform (plain ret) x w = Some (Normal (), u)"
proof (cases "state w = PENDING")
  case True
  with assms(1) obtain ev where ev: "events w = Some ev" by (auto simp: well_formed_def)
  from assms(2) obtain st c' where "settlement x (ctxt w) = Some (st, c', vs)" by auto
  from settle_plain[OF this True ev] show ?thesis by blast
next
  case False
  moreover have "is_settlement x" using assms(2) by auto
  ultimately show ?thesis by (simp add: settled_settlement_perform)
qed

subsection \<open>Queues that differ only in what is neither a function nor an array\<close>

text \<open>
  A settlement fires the same callbacks, and ends in the same world, from two pending
  objects whose queues hold the same callbacks: the queues are read once and discarded.
\<close>

lemma prune_each_append: "prune_each (xs @ ys) = prune_each xs @ prune_each ys"
  by (induction xs) simp_all

lemma call_each_same_pruned:
  assumes "prune_each xs = prune_each ys"
  shows "call_each ap xs c a w = call_each ap ys c a w"
proof -
  have "call_each ap xs c a w = call_each ap (prune_each xs) c a w" by (simp only: call_prune(2))
  also have "\<dots> = call_each ap (prune_each ys) c a w" using assms by simp
  also have "\<dots> = call_each ap ys c a w" by (simp only: call_prune(2))
  finally show ?thesis .
qed

lemma done_targets_append: "done_targets (xs @ ys) = done_targets xs @ done_targets ys"
  by (induction xs rule: done_targets.induct) simp_all

lemma fail_targets_append: "fail_targets (xs @ ys) = fail_targets xs @ fail_targets ys"
  by (induction xs rule: fail_targets.induct) simp_all

lemma always_targets_append: "always_targets (xs @ ys) = always_targets xs @ always_targets ys"
  by (induction xs rule: always_targets.induct) simp_all

lemma queued_junk:
  assumes "is_junk t" "x = CallDone t \<or> x = CallFail t \<or> x = CallAlways t"
  shows "same_callbacks (queued ev (pre @ x # post)) (queued ev (pre @ post))"
  using assms
  by (auto simp: same_callbacks_def queued_def prune_each_append done_targets_append
      fail_targets_append always_targets_append)

lemma resolve_same_callbacks:
  assumes "state w = PENDING" "same_callbacks q q'"
  shows "Deferred_resolve ap vs (w\<lparr>events := Some q\<rparr>) = Deferred_resolve ap vs (w\<lparr>events := Some q'\<rparr>)"
proof -
  have d: "call_each ap (ev_done q) c a u = call_each ap (ev_done q') c a u" for c a u
    using assms(2) by (intro call_each_same_pruned) (simp add: same_callbacks_def)
  have "call_each ap (ev_always q) c a u = call_each ap (ev_always q') c a u" for c a u
    using assms(2) by (intro call_each_same_pruned) (simp add: same_callbacks_def)
  with d show ?thesis using assms(1)
    by (simp add: Deferred_resolve_def store_arguments_def del: call_each.simps)
qed

lemma rejectWith_same_callbacks:
  assumes "state w = PENDING" "same_callbacks q q'"
  shows "Deferred_rejectWith ap vs (w\<lparr>events := Some q\<rparr>)
       = Deferred_rejectWith ap vs (w\<lparr>events := Some q'\<rparr>)"
proof -
  have d: "call_each ap (ev_fail q) c a u = call_each ap (ev_fail q') c a u" for c a u
    using assms(2) by (intro call_each_same_pruned) (simp add: same_callbacks_def)
  have "call_each ap (ev_always q) c a u = call_each ap (ev_always q') c a u" for c a u
    using assms(2) by (intro call_each_same_pruned) (simp add: same_callbacks_def)
  with d show ?thesis using assms(1)
    by (simp add: Deferred_rejectWith_def store_arguments_def del: call_each.simps)
qed

lemma settle_same_callbacks:
  assumes "is_settlement s" "state w = PENDING" "same_callbacks q q'"
  shows "perform ap s (w\<lparr>events := Some q\<rparr>) = perform ap s (w\<lparr>events := Some q'\<rparr>)"
proof (cases s)
  case (CallResolve vs)
  then show ?thesis using resolve_same_callbacks[OF assms(2,3)] by simp
next
  case (CallResolveWith c vs)
  have "state (w\<lparr>ctxt := c\<rparr>) = PENDING" using assms(2) by simp
  from resolve_same_callbacks[OF this assms(3), of ap vs]
  have r: "Deferred_resolve ap vs (w\<lparr>ctxt := c, events := Some q\<rparr>)
         = Deferred_resolve ap vs (w\<lparr>ctxt := c, events := Some q'\<rparr>)" .
  have comm: "w\<lparr>events := e, ctxt := c\<rparr> = w\<lparr>ctxt := c, events := e\<rparr>" for e
    by (cases w) simp
  have "Deferred_resolve ap vs (w\<lparr>events := Some q, ctxt := c\<rparr>)
      = Deferred_resolve ap vs (w\<lparr>events := Some q', ctxt := c\<rparr>)"
    by (simp only: comm r)
  then show ?thesis using CallResolveWith assms(2) by (simp add: Deferred_resolveWith_def)
next
  case (CallRejectWith vs)
  then show ?thesis using rejectWith_same_callbacks[OF assms(2,3)] by simp
next
  case (CallReject c vs)
  then show ?thesis using assms(2) by (simp add: reject_pending_diverges)
qed (use assms(1) in simp_all)

lemma register_then:
  assumes "list_all is_registration regs" "state w = PENDING" "events w = Some ev"
  shows "perform_all ap (regs @ s # rest) w =
     and_then (perform ap s (w\<lparr>events := Some (queued ev regs)\<rparr>)) (\<lambda>_ u. perform_all ap rest u)"
  using register_pending[OF assms, of ap]
  by (simp add: perform_all_append)

section \<open>Settlement of a settled object\<close>

text \<open>
  Claim C3. On an object whose state is not PENDING, each of the four settlement
  operations returns normally and leaves the whole world as it was: state, context,
  stored arguments, queues and the log of applied callbacks, so no callback ran.
  Consequently no sequence of method calls, whatever the callbacks they fire do, changes
  the state of a settled object: the state leaves PENDING at most once.
\<close>

theorem settled_settlement_is_noop:
  "state w \<noteq> PENDING \<Longrightarrow>
     Deferred_resolve ap vs w = Some (Normal (), w) \<and>
     Deferred_resolveWith ap c vs w = Some (Normal (), w) \<and>
     Deferred_rejectWith ap vs w = Some (Normal (), w) \<and>
     Deferred_reject c vs w = Some (Normal (), w) \<and>
     (perform_all (user_apply n env) acts w = Some (r, w') \<longrightarrow> state w' = state w)"
proof -
  assume s: "state w \<noteq> PENDING"
  have "perform_all (user_apply n env) acts w = Some (r, w') \<Longrightarrow> state w' = state w"
    using perform_all_frame[OF tame_user_apply s] by (simp add: frame_def)
  with s show ?thesis
    by (simp add: settled_resolve settled_resolveWith settled_rejectWith reject_settled)
qed

theorem settled_settlement_is_noop_witness:
  "state resolved_with_1 \<noteq> PENDING \<and>
   Deferred_resolve (plain silent) [Num 2] resolved_with_1 = Some (Normal (), resolved_with_1) \<and>
   Deferred_resolveWith (plain silent) (Obj 7) [Num 2] resolved_with_1
     = Some (Normal (), resolved_with_1) \<and>
   Deferred_rejectWith (plain silent) [Num 2] resolved_with_1 = Some (Normal (), resolved_with_1) \<and>
   Deferred_reject (Obj 7) [Num 2] resolved_with_1 = Some (Normal (), resolved_with_1) \<and>
   perform_all (user_apply 1 (\<lambda>f c xs. ([], Return Undefined)))
      [CallResolve [Num 2], CallRejectWith [Num 3]] resolved_with_1
     = Some (Normal (), resolved_with_1) \<and>
   state resolved_with_1 = RESOLVED"
  using settled_settlement_is_noop[of resolved_with_1 "plain silent" "[Num 2]" "Obj 7"
      1 "\<lambda>f c xs. ([], Return Undefined)" "[CallResolve [Num 2], CallRejectWith [Num 3]]"
      "Normal ()" resolved_with_1]
  by (simp add: resolved_with_1_def Deferred_resolve_def Deferred_rejectWith_def)

section \<open>Registrations followed by one resolve\<close>

text \<open>
  Claim C4. Take a pending object with queues \<open>ev\<close>, any sequence \<open>regs\<close> of calls of
  \<open>done\<close>, \<open>fail\<close> and \<open>always\<close>, and then one call of \<open>resolve\<close>, with callbacks that
  return (a value or nothing) and do not call back into the object. The call returns, and
  the functions it applied are, in this order: every function held by the done queue and
  the \<open>done\<close> registrations, in registration order (nested arrays left to right), each
  once per registration; then every function held by the always queue and the \<open>always\<close>
  registrations, in registration order. Nothing else is applied: a function registered
  with \<open>fail\<close> only does not fire.
\<close>

theorem resolve_fires_done_then_always:
  assumes "list_all is_registration regs" "state w = PENDING" "events w = Some ev"
  shows "\<exists>w' es. perform_all (plain ret) (regs @ [CallResolve vs]) w = Some (Normal (), w') \<and>
           calls w' = calls w @ es \<and>
           map callee es = fns_each (ev_done ev @ done_targets regs)
                             @ fns_each (ev_always ev @ always_targets regs)"
proof -
  let ?u = "w\<lparr>events := Some (queued ev regs)\<rparr>"
  have reg: "perform_all (plain ret) regs w = Some (Normal (), ?u)"
    using assms by (rule register_pending)
  have "state ?u = PENDING" "events ?u = Some (queued ev regs)" using assms by simp_all
  from resolve_plain[OF this, of ret vs] reg show ?thesis
    by (simp add: perform_all_append queued_def)
qed

theorem resolve_fires_done_then_always_witness:
  "list_all is_registration
     [CallDone (Fun 0), CallFail (Fun 1), CallAlways (Fun 2), CallDone (Arr [Fun 3, Arr [Fun 4]])] \<and>
   state Deferred_new = PENDING \<and>
   events Deferred_new = Some \<lparr>ev_done = [], ev_fail = [], ev_always = []\<rparr> \<and>
   (\<exists>w' es. perform_all (plain silent)
        ([CallDone (Fun 0), CallFail (Fun 1), CallAlways (Fun 2), CallDone (Arr [Fun 3, Arr [Fun 4]])]
          @ [CallResolve [Num 1]]) Deferred_new = Some (Normal (), w') \<and>
      calls w' = calls Deferred_new @ es \<and> map callee es = [0, 3, 4, 2])"
  using resolve_fires_done_then_always[of
      "[CallDone (Fun 0), CallFail (Fun 1), CallAlways (Fun 2), CallDone (Arr [Fun 3, Arr [Fun 4]])]"
      Deferred_new "\<lparr>ev_done = [], ev_fail = [], ev_always = []\<rparr>" silent "[Num 1]"]
  by (simp add: Deferred_new_def)

section \<open>The recursion of reject\<close>

text \<open>
  Claim C2. The claim is that every settlement operation returns. \<open>reject\<close>, line 254,
  calls \<open>this.reject\<close>, itself, where \<open>resolveWith\<close> calls \<open>this.resolve\<close>: on a new
  object, with any arguments, the state stays PENDING through every recursive call and
  the call never returns. The three other operations do return
  (\<open>other_settlements_return\<close>).
\<close>

theorem reject_never_returns: "Deferred_reject c vs Deferred_new = None"
  by (rule reject_pending_diverges) (simp add: Deferred_new_def)

section \<open>A returned value after a settlement without arguments\<close>

text \<open>
  Claim C5. The claim is that a value a callback returns reaches the next callback of the
  batch as its first argument, as the header comment of the file says (line 10). After
  \<open>d.done([f0, f1]); d.resolve()\<close>, where \<open>f0\<close> returns 2, the value is written to index 0
  of the stored \<open>arguments\<close> object, whose \<open>length\<close> was 0 and stays 0, so \<open>apply\<close> passes
  \<open>f1\<close> no argument at all: both log records have an empty argument list.
\<close>

theorem onion_lost_without_arguments:
  "perform_all (plain two_then_nothing) [CallDone (Arr [Fun 0, Fun 1]), CallResolve []] Deferred_new
     = Some (Normal (),
         \<lparr>state = RESOLVED, ctxt = Null, args = Some 0, events = None,
          heap = [\<lparr>arg_length = 0, arg_items = [Num 2]\<rparr>],
          calls = [\<lparr>callee = 0, receiver = Null, passed = [], seen_state = RESOLVED, seen_purged = True\<rparr>,
                   \<lparr>callee = 1, receiver = Null, passed = [], seen_state = RESOLVED, seen_purged = True\<rparr>]\<rparr>)"
  by (simp add: Deferred_new_def Deferred_done_def push_done_def Deferred_resolve_def
      store_arguments_def plain_def log_call_def apply_args_def array_like_def new_arguments_def
      two_then_nothing_def assign_index0_def set_index0_def)

section \<open>The member of the reject family without a context\<close>

text \<open>
  Claim C1. On a pending object with queues \<open>ev\<close>, \<open>rejectWith(vs)\<close> (the reject
  operation that takes no context) sets the state to REJECTED, stores a new \<open>arguments\<close>
  object holding \<open>vs\<close> in \<open>args\<close>, discards the queues, and then fires the captured fail
  queue and after it the captured always queue, both with the stored context and the
  stored arguments object. This holds for callbacks of any behaviour. With callbacks that
  return without calling back, the call returns, and the log grows by the functions of
  the fail queue and then those of the always queue, each applied with receiver
  \<open>ctxt w\<close> and the stored arguments as they are when its turn comes.
\<close>

theorem rejectWith_settles_and_fires:
  assumes "state w = PENDING" "events w = Some ev"
  shows "Deferred_rejectWith (user_apply n env) vs w =
           and_then
             (call (user_apply n env) (Arr (ev_fail ev)) (ctxt w) (Some (length (heap w)))
                (w\<lparr>state := REJECTED, args := Some (length (heap w)),
                   heap := heap w @ [new_arguments vs], events := None\<rparr>))
             (\<lambda>_ u. call (user_apply n env) (Arr (ev_always ev)) (ctxt w) (Some (length (heap w))) u)
       \<and> Deferred_rejectWith (plain ret) vs w =
           Some (Normal (),
             w\<lparr>state := REJECTED, args := Some (length (heap w)), events := None,
                heap := heap w @ [onion ret (ctxt w) (fns_each (ev_fail ev) @ fns_each (ev_always ev))
                                    (new_arguments vs)],
                calls := calls w @ firing ret (ctxt w) REJECTED True
                           (fns_each (ev_fail ev) @ fns_each (ev_always ev)) (new_arguments vs)\<rparr>)"
proof
  let ?w2 = "w\<lparr>state := REJECTED, args := Some (length (heap w)),
                heap := heap w @ [new_arguments vs], events := None\<rparr>"
  have "state ?w2 \<noteq> PENDING" by simp
  from settle_call_same_receiver[OF tame_user_apply this, of n env "Arr (ev_fail ev)" "Arr (ev_always ev)"]
  show "Deferred_rejectWith (user_apply n env) vs w =
           and_then
             (call (user_apply n env) (Arr (ev_fail ev)) (ctxt w) (Some (length (heap w))) ?w2)
             (\<lambda>_ u. call (user_apply n env) (Arr (ev_always ev)) (ctxt w) (Some (length (heap w))) u)"
    using assms by (simp add: Deferred_rejectWith_def store_arguments_def del: call.simps)
next
  show "Deferred_rejectWith (plain ret) vs w =
           Some (Normal (),
             w\<lparr>state := REJECTED, args := Some (length (heap w)), events := None,
                heap := heap w @ [onion ret (ctxt w) (fns_each (ev_fail ev) @ fns_each (ev_always ev))
                                    (new_arguments vs)],
                calls := calls w @ firing ret (ctxt w) REJECTED True
                           (fns_each (ev_fail ev) @ fns_each (ev_always ev)) (new_arguments vs)\<rparr>)"
    using assms by (rule rejectWith_plain)
qed

theorem rejectWith_settles_and_fires_witness:
  "state pending_with_three = PENDING \<and>
   events pending_with_three = Some \<lparr>ev_done = [Fun 0], ev_fail = [Fun 1], ev_always = [Fun 2]\<rparr> \<and>
   Deferred_rejectWith (user_apply 1 (\<lambda>f c xs. ([], Return Undefined))) [Str ''x'']
       pending_with_three =
     Some (Normal (),
       \<lparr>state = REJECTED, ctxt = Null, args = Some 0, events = None,
        heap = [\<lparr>arg_length = 1, arg_items = [Str ''x'']\<rparr>],
        calls = [\<lparr>callee = 1, receiver = Null, passed = [Str ''x''], seen_state = REJECTED,
                   seen_purged = True\<rparr>,
                 \<lparr>callee = 2, receiver = Null, passed = [Str ''x''], seen_state = REJECTED,
                   seen_purged = True\<rparr>]\<rparr>) \<and>
   Deferred_rejectWith (plain silent) [Str ''x''] pending_with_three =
     Some (Normal (),
       \<lparr>state = REJECTED, ctxt = Null, args = Some 0, events = None,
        heap = [\<lparr>arg_length = 1, arg_items = [Str ''x'']\<rparr>],
        calls = [\<lparr>callee = 1, receiver = Null, passed = [Str ''x''], seen_state = REJECTED,
                   seen_purged = True\<rparr>,
                 \<lparr>callee = 2, receiver = Null, passed = [Str ''x''], seen_state = REJECTED,
                   seen_purged = True\<rparr>]\<rparr>)"
  using rejectWith_settles_and_fires[of pending_with_three
      "\<lparr>ev_done = [Fun 0], ev_fail = [Fun 1], ev_always = [Fun 2]\<rparr>"
      1 "\<lambda>f c xs. ([], Return Undefined)" "[Str ''x'']" silent]
  by (simp add: pending_with_three_def finish_def log_call_def apply_args_def array_like_def
      new_arguments_def onion_step_def silent_def)

section \<open>Registration by state\<close>

text \<open>
  Claim C6. \<open>done(cb)\<close> on a RESOLVED object is \<open>call(cb, this.context, this.args)\<close>,
  at once and inside the registration call; on a PENDING object it appends \<open>cb\<close> to the
  done queue and applies nothing (the log is unchanged); on a REJECTED object it changes
  nothing at all, so \<open>cb\<close> is kept nowhere and cannot fire later. \<open>fail(cb)\<close> is the same
  with RESOLVED and REJECTED exchanged. What the immediate \<open>call\<close> does is the last
  conjunct: with callbacks that return, every function \<open>cb\<close> holds, nested arrays
  included, is applied in order with the stored context as receiver and the stored
  arguments.
\<close>

theorem done_and_fail_by_state:
  "(state w = RESOLVED \<longrightarrow> Deferred_done ap cb w = call ap cb (ctxt w) (args w) w) \<and>
   (state w = PENDING \<and> events w = Some ev \<longrightarrow>
      Deferred_done ap cb w = Some (Normal (), w\<lparr>events := Some (ev\<lparr>ev_done := ev_done ev @ [cb]\<rparr>)\<rparr>)) \<and>
   (state w = REJECTED \<longrightarrow> Deferred_done ap cb w = Some (Normal (), w)) \<and>
   (state w = REJECTED \<longrightarrow> Deferred_fail ap cb w = call ap cb (ctxt w) (args w) w) \<and>
   (state w = PENDING \<and> events w = Some ev \<longrightarrow>
      Deferred_fail ap cb w = Some (Normal (), w\<lparr>events := Some (ev\<lparr>ev_fail := ev_fail ev @ [cb]\<rparr>)\<rparr>)) \<and>
   (state w = RESOLVED \<longrightarrow> Deferred_fail ap cb w = Some (Normal (), w)) \<and>
   (args w = Some r \<and> r < length (heap w) \<longrightarrow>
      call (plain ret) cb (ctxt w) (args w) w =
        Some (Normal (),
          w\<lparr>heap := (heap w)[r := onion ret (ctxt w) (fns cb) (heap w ! r)],
             calls := calls w @ firing ret (ctxt w) (state w) (events w = None) (fns cb) (heap w ! r)\<rparr>))"
  by (simp add: Deferred_done_def Deferred_fail_def push_done_def push_fail_def call_plain(1)
      del: call.simps)

theorem done_and_fail_by_state_witness:
  "Deferred_done (plain silent) (Arr [Fun 0, Arr [Fun 1]]) resolved_with_1 =
     Some (Normal (),
       resolved_with_1\<lparr>calls :=
         [\<lparr>callee = 0, receiver = Null, passed = [Num 1], seen_state = RESOLVED, seen_purged = True\<rparr>,
          \<lparr>callee = 1, receiver = Null, passed = [Num 1], seen_state = RESOLVED, seen_purged = True\<rparr>]\<rparr>) \<and>
   Deferred_done (plain silent) (Fun 0) Deferred_new =
     Some (Normal (), Deferred_new\<lparr>events := Some \<lparr>ev_done = [Fun 0], ev_fail = [], ev_always = []\<rparr>\<rparr>) \<and>
   Deferred_done (plain silent) (Fun 0) rejected_with_x = Some (Normal (), rejected_with_x) \<and>
   Deferred_fail (plain silent) (Fun 0) rejected_with_x =
     Some (Normal (),
       rejected_with_x\<lparr>calls :=
         [\<lparr>callee = 0, receiver = Null, passed = [Str ''x''], seen_state = REJECTED,
            seen_purged = True\<rparr>]\<rparr>) \<and>
   Deferred_fail (plain silent) (Fun 0) Deferred_new =
     Some (Normal (), Deferred_new\<lparr>events := Some \<lparr>ev_done = [], ev_fail = [Fun 0], ev_always = []\<rparr>\<rparr>) \<and>
   Deferred_fail (plain silent) (Fun 0) resolved_with_1 = Some (Normal (), resolved_with_1)"
  using
    done_and_fail_by_state[of resolved_with_1 "plain silent" "Arr [Fun 0, Arr [Fun 1]]"
      "\<lparr>ev_done = [], ev_fail = [], ev_always = []\<rparr>" 0 silent]
    done_and_fail_by_state[of Deferred_new "plain silent" "Fun 0"
      "\<lparr>ev_done = [], ev_fail = [], ev_always = []\<rparr>" 0 silent]
    done_and_fail_by_state[of rejected_with_x "plain silent" "Fun 0"
      "\<lparr>ev_done = [], ev_fail = [], ev_always = []\<rparr>" 0 silent]
    done_and_fail_by_state[of resolved_with_1 "plain silent" "Fun 0"
      "\<lparr>ev_done = [], ev_fail = [], ev_always = []\<rparr>" 0 silent]
  by (simp add: resolved_with_1_def rejected_with_x_def Deferred_new_def onion_step_def silent_def
      del: call.simps)

section \<open>Targets that are neither functions nor arrays\<close>

text \<open>
  Claim C8. Let \<open>t\<close> be neither a function nor an array, and \<open>x\<close> the call of \<open>done\<close>,
  \<open>fail\<close> or \<open>always\<close> with \<open>t\<close>. For callbacks of any behaviour and in every state:
  \<^item> \<open>call\<close> on \<open>t\<close> returns at once, without an error, the world unchanged; and inside
    a collection, at any depth, such elements count for nothing: \<open>call\<close> on a target is
    \<open>call\<close> on the target with them removed;
  \<^item> on a settled object \<open>x\<close> returns without an error and changes nothing;
  \<^item> on a pending object \<open>x\<close> returns without an error and applies no function (it keeps
    \<open>t\<close> in the queue, nothing else changes), and it is ignored from then on: whatever
    registrations come before and after it, the settlement that follows, and every
    method call after that, has the outcome and the final world it has without \<open>x\<close>.
\<close>

theorem junk_target_is_ignored:
  assumes "is_junk t" "x = CallDone t \<or> x = CallFail t \<or> x = CallAlways t"
  shows "call ap t c a w = Some (Normal (), w) \<and>
     call ap (prune y) c a w = call ap y c a w \<and>
     (state w \<noteq> PENDING \<longrightarrow> perform ap x w = Some (Normal (), w)) \<and>
     (state w = PENDING \<and> events w = Some ev \<longrightarrow>
        perform ap x w = Some (Normal (), w\<lparr>events := Some (queued ev [x])\<rparr>) \<and>
        (list_all is_registration pre \<and> list_all is_registration post \<and> is_settlement s \<longrightarrow>
           perform_all ap (pre @ x # post @ s # rest) w = perform_all ap (pre @ post @ s # rest) w))"
proof (intro conjI impI)
  show "call ap t c a w = Some (Normal (), w)" using assms(1) by (rule call_junk)
  show "call ap (prune y) c a w = call ap y c a w" by (rule call_prune(1))
next
  assume "state w \<noteq> PENDING"
  then show "perform ap x w = Some (Normal (), w)" using assms
    by (auto simp: Deferred_done_def Deferred_fail_def Deferred_always_def call_junk)
next
  assume "state w = PENDING \<and> events w = Some ev"
  then show "perform ap x w = Some (Normal (), w\<lparr>events := Some (queued ev [x])\<rparr>)" using assms(2)
    by (auto simp: Deferred_done_def Deferred_fail_def Deferred_always_def push_done_def
        push_fail_def push_always_def queued_def)
next
  assume p: "state w = PENDING \<and> events w = Some ev"
    and r: "list_all is_registration pre \<and> list_all is_registration post \<and> is_settlement s"
  have x: "is_registration x" using assms(2) by auto
  have 1: "list_all is_registration (pre @ x # post)" using r x by simp
  have 2: "list_all is_registration (pre @ post)" using r by simp
  have "perform ap s (w\<lparr>events := Some (queued ev (pre @ x # post))\<rparr>)
      = perform ap s (w\<lparr>events := Some (queued ev (pre @ post))\<rparr>)"
    using r p queued_junk[OF assms] by (intro settle_same_callbacks) simp_all
  with register_then[OF 1, of w ev ap s rest] register_then[OF 2, of w ev ap s rest] p
  show "perform_all ap (pre @ x # post @ s # rest) w = perform_all ap (pre @ post @ s # rest) w"
    by simp
qed

theorem junk_target_is_ignored_witness:
  "is_junk (Num 5) \<and>
   call (plain silent) (Num 5) Null (Some 0) resolved_with_1 = Some (Normal (), resolved_with_1) \<and>
   call (plain silent) (Arr [Fun 0, Arr [Fun 1]]) Null (Some 0) resolved_with_1 =
     call (plain silent) (Arr [Str ''a'', Fun 0, Arr [Null, Fun 1, Obj 3]]) Null (Some 0) resolved_with_1 \<and>
   perform (plain silent) (CallDone (Num 5)) resolved_with_1 = Some (Normal (), resolved_with_1) \<and>
   perform (plain silent) (CallDone (Num 5)) Deferred_new =
     Some (Normal (), Deferred_new\<lparr>events := Some \<lparr>ev_done = [Num 5], ev_fail = [], ev_always = []\<rparr>\<rparr>) \<and>
   perform_all (plain silent)
      [CallDone (Fun 0), CallDone (Num 5), CallAlways (Fun 1), CallResolve [Num 1], CallDone (Fun 2)]
      Deferred_new =
     perform_all (plain silent)
      [CallDone (Fun 0), CallAlways (Fun 1), CallResolve [Num 1], CallDone (Fun 2)] Deferred_new \<and>
   perform_all (plain silent)
      [CallDone (Fun 0), CallDone (Num 5), CallAlways (Fun 1), CallResolve [Num 1], CallDone (Fun 2)]
      Deferred_new =
     Some (Normal (),
       \<lparr>state = RESOLVED, ctxt = Null, args = Some 0, events = None,
        heap = [\<lparr>arg_length = 1, arg_items = [Num 1]\<rparr>],
        calls = [\<lparr>callee = 0, receiver = Null, passed = [Num 1], seen_state = RESOLVED, seen_purged = True\<rparr>,
                 \<lparr>callee = 1, receiver = Null, passed = [Num 1], seen_state = RESOLVED, seen_purged = True\<rparr>,
                 \<lparr>callee = 2, receiver = Null, passed = [Num 1], seen_state = RESOLVED, seen_purged = True\<rparr>]\<rparr>)"
  using
    junk_target_is_ignored[of "Num 5" "CallDone (Num 5)" "plain silent" Null "Some 0" resolved_with_1
      "Arr [Str ''a'', Fun 0, Arr [Null, Fun 1, Obj 3]]" "\<lparr>ev_done = [], ev_fail = [], ev_always = []\<rparr>"
      "[CallDone (Fun 0)]" "[CallAlways (Fun 1)]" "CallResolve [Num 1]" "[CallDone (Fun 2)]"]
    junk_target_is_ignored[of "Num 5" "CallDone (Num 5)" "plain silent" Null "Some 0" Deferred_new
      "Arr [Str ''a'', Fun 0, Arr [Null, Fun 1, Obj 3]]" "\<lparr>ev_done = [], ev_fail = [], ev_always = []\<rparr>"
      "[CallDone (Fun 0)]" "[CallAlways (Fun 1)]" "CallResolve [Num 1]" "[CallDone (Fun 2)]"]
  by (simp add: resolved_with_1_def Deferred_new_def queued_def Deferred_done_def push_done_def
      Deferred_always_def push_always_def Deferred_resolve_def store_arguments_def plain_def
      log_call_def apply_args_def array_like_def new_arguments_def silent_def)

section \<open>What the always callbacks receive\<close>

text \<open>
  Claim C10, as stated, fails: after \<open>d.done(f0); d.always([f1, f2]); d.resolve(1)\<close>,
  where \<open>f0\<close> returns 2 and \<open>f1\<close> returns 3, the last value a done callback returned is 2,
  and the always callback \<open>f2\<close> receives 3.
\<close>

theorem always_does_not_keep_done_value:
  "perform_all (plain two_three_nothing)
      [CallDone (Fun 0), CallAlways (Arr [Fun 1, Fun 2]), CallResolve [Num 1]] Deferred_new =
     Some (Normal (),
       \<lparr>state = RESOLVED, ctxt = Null, args = Some 0, events = None,
        heap = [\<lparr>arg_length = 1, arg_items = [Num 3]\<rparr>],
        calls = [\<lparr>callee = 0, receiver = Null, passed = [Num 1], seen_state = RESOLVED, seen_purged = True\<rparr>,
                 \<lparr>callee = 1, receiver = Null, passed = [Num 2], seen_state = RESOLVED, seen_purged = True\<rparr>,
                 \<lparr>callee = 2, receiver = Null, passed = [Num 3], seen_state = RESOLVED, seen_purged = True\<rparr>]\<rparr>)"
  by (simp add: Deferred_new_def Deferred_done_def push_done_def Deferred_always_def push_always_def
      Deferred_resolve_def store_arguments_def plain_def log_call_def apply_args_def array_like_def
      new_arguments_def two_three_nothing_def assign_index0_def set_index0_def)

text \<open>
  Claim C10, amended. Let a settlement call with at least one argument, \<open>v\<close> the first,
  fire its primary queue (done for the resolve family, fail for \<open>rejectWith\<close>) and the
  always queue, with callbacks that return. The log grows by the primary applications
  \<open>P\<close> and then the always applications \<open>A\<close>, written through one \<open>arguments\<close> object:
  each always callback receives, as first argument, the value most recently returned by
  a callback applied before it in this call, primary or always (\<open>v\<close> if none returned
  one), and the other arguments unchanged. So the first always callback, and every
  always callback before which no always callback has returned a value, receives the
  value the last value-returning primary callback returned.
\<close>

theorem always_receives_latest_value:
  assumes "settlement s (ctxt w) = Some (st, c, v # rest)" "state w = PENDING" "events w = Some ev"
  shows "\<exists>u P A. perform (plain ret) s w = Some (Normal (), u) \<and>
           calls u = calls w @ P @ A \<and>
           map callee P = fns_each (primary_queue st ev) \<and>
           map callee A = fns_each (ev_always ev) \<and>
           (\<forall>k < length A. passed (A ! k) = latest ret (P @ take k A) v # rest) \<and>
           (\<forall>k < length A. (\<forall>j < k. returned ret (A ! j) = Undefined) \<longrightarrow>
                passed (A ! k) = latest ret P v # rest)"
proof -
  let ?a = "new_arguments (v # rest)"
  let ?Fp = "fns_each (primary_queue st ev)" and ?Fa = "fns_each (ev_always ev)"
  let ?P = "firing ret c st True ?Fp ?a"
  let ?A = "firing ret c st True ?Fa (onion ret c ?Fp ?a)"
  let ?u = "w\<lparr>state := st, ctxt := c, args := Some (length (heap w)), events := None,
          heap := heap w @ [onion ret c (?Fp @ ?Fa) ?a],
          calls := calls w @ firing ret c st True (?Fp @ ?Fa) ?a\<rparr>"
  have p: "perform (plain ret) s w = Some (Normal (), ?u)" using assms by (rule settle_plain)
  have al: "array_like (onion ret c ?Fp ?a) = latest ret ?P v # rest"
    by (rule array_like_onion) simp
  have k: "passed (?A ! k) = latest ret (?P @ take k ?A) v # rest" if "k < length ?A" for k
    using that firing_passed_latest[OF al, of k ?Fa ret c st True] by (simp add: latest_append)
  have k2: "passed (?A ! k) = latest ret ?P v # rest"
    if "k < length ?A" "\<forall>j < k. returned ret (?A ! j) = Undefined" for k
  proof -
    have "returned ret e = Undefined" if "e \<in> set (take k ?A)" for e
    proof -
      from that obtain j where "j < length (take k ?A)" "take k ?A ! j = e"
        by (auto simp: in_set_conv_nth)
      with \<open>\<forall>j < k. returned ret (?A ! j) = Undefined\<close> show ?thesis by auto
    qed
    then have "latest ret (take k ?A) (latest ret ?P v) = latest ret ?P v" by (rule latest_silent)
    with k[OF that(1)] show ?thesis by (simp add: latest_append)
  qed
  show ?thesis
    apply (rule exI[of _ ?u], rule exI[of _ ?P], rule exI[of _ ?A])
    using p k k2 by (simp add: firing_append)
qed

theorem always_receives_latest_value_witness:
  "settlement (CallResolve [Num 1]) (ctxt pending_done_always2) = Some (RESOLVED, Null, [Num 1]) \<and>
   state pending_done_always2 = PENDING \<and>
   events pending_done_always2 =
     Some \<lparr>ev_done = [Fun 0], ev_fail = [], ev_always = [Arr [Fun 1, Fun 2]]\<rparr> \<and>
   perform (plain two_then_nothing) (CallResolve [Num 1]) pending_done_always2 =
     Some (Normal (),
       \<lparr>state = RESOLVED, ctxt = Null, args = Some 0, events = None,
        heap = [\<lparr>arg_length = 1, arg_items = [Num 2]\<rparr>],
        calls =
          [\<lparr>callee = 0, receiver = Null, passed = [Num 1], seen_state = RESOLVED, seen_purged = True\<rparr>] @
          [\<lparr>callee = 1, receiver = Null, passed = [Num 2], seen_state = RESOLVED, seen_purged = True\<rparr>,
           \<lparr>callee = 2, receiver = Null, passed = [Num 2], seen_state = RESOLVED, seen_purged = True\<rparr>]\<rparr>)"
  using always_receives_latest_value[of "CallResolve [Num 1]" pending_done_always2 RESOLVED Null
      "Num 1" "[]" "\<lparr>ev_done = [Fun 0], ev_fail = [], ev_always = [Arr [Fun 1, Fun 2]]\<rparr>"
      two_then_nothing]
  by (simp add: pending_done_always2_def Deferred_resolve_def store_arguments_def plain_def
      log_call_def apply_args_def array_like_def new_arguments_def two_then_nothing_def
      assign_index0_def set_index0_def)

section \<open>Registration after settlement\<close>

text \<open>
  Claim C7, as stated, fails: after \<open>d.resolve(1); d.done(f0); d.done(f1)\<close>, where \<open>f0\<close>
  returns 2, the callback \<open>f1\<close> is applied to 2, not to the settlement value 1. The
  stored \<open>arguments\<close> object is the one \<open>call\<close> writes to.
\<close>

theorem late_registration_sees_returned_value:
  "perform_all (plain two_then_nothing)
      [CallResolve [Num 1], CallDone (Fun 0), CallDone (Fun 1)] Deferred_new =
     Some (Normal (),
       \<lparr>state = RESOLVED, ctxt = Null, args = Some 0, events = None,
        heap = [\<lparr>arg_length = 1, arg_items = [Num 2]\<rparr>],
        calls = [\<lparr>callee = 0, receiver = Null, passed = [Num 1], seen_state = RESOLVED, seen_purged = True\<rparr>,
                 \<lparr>callee = 1, receiver = Null, passed = [Num 2], seen_state = RESOLVED, seen_purged = True\<rparr>]\<rparr>)"
  by (simp add: Deferred_new_def Deferred_done_def Deferred_resolve_def store_arguments_def
      plain_def log_call_def apply_args_def array_like_def new_arguments_def two_then_nothing_def
      assign_index0_def set_index0_def)

text \<open>
  Claim C7, amended. Let a pending object be settled by \<open>s\<close> (\<open>resolve\<close>, \<open>resolveWith\<close> or
  \<open>rejectWith\<close>) with context \<open>c\<close> and values \<open>vs\<close>, then receive any further method calls
  \<open>post\<close>, and then the registration \<open>x\<close> of a function \<open>f\<close> that matches the outcome
  (\<open>done\<close> or \<open>always\<close> when resolved, \<open>fail\<close> or \<open>always\<close> when rejected), all with callbacks
  that return. Then \<open>f\<close> is applied exactly once, inside the registration call, with
  receiver \<open>c\<close>, and with as many arguments as the settlement call had: the settlement
  values, except that position 0 holds the value most recently returned by a callback
  applied since the settlement (\<open>es\<close>), the first settlement value when none returned one.
\<close>

theorem late_registration_fires_once:
  assumes "settlement s (ctxt w) = Some (st, c, vs)" "state w = PENDING" "events w = Some ev"
    and "fired_targets st [x] = [Fun f]"
  shows "\<exists>u es u' e. perform_all (plain ret) (s # post) w = Some (Normal (), u) \<and>
           calls u = calls w @ es \<and>
           perform (plain ret) x u = Some (Normal (), u') \<and>
           calls u' = calls u @ [e] \<and> callee e = f \<and> receiver e = c \<and>
           passed e = (case vs of [] \<Rightarrow> [] | v # rest \<Rightarrow> latest ret es v # rest)"
proof -
  let ?a = "new_arguments vs"
  let ?F = "fns_each (primary_queue st ev) @ fns_each (ev_always ev) @ fns_each (fired_targets st post)"
  let ?es = "firing ret c st True ?F ?a"
  let ?u = "w\<lparr>state := st, ctxt := c, args := Some (length (heap w)), events := None,
          heap := heap w @ [onion ret c ?F ?a], calls := calls w @ ?es\<rparr>"
  let ?e = "\<lparr>callee = f, receiver = c, passed = array_like (onion ret c ?F ?a),
             seen_state = st, seen_purged = True\<rparr>"
  have st: "st \<noteq> PENDING" using assms(1) by (cases s) auto
  have p: "perform_all (plain ret) (s # post) w = Some (Normal (), ?u)"
    using assms(1-3) by (rule settle_then_plain)
  have "perform (plain ret) x ?u =
     Some (Normal (),
       ?u\<lparr>heap := (heap ?u)[length (heap w) :=
                 onion ret (ctxt ?u) (fns_each (fired_targets (state ?u) [x])) (heap ?u ! length (heap w))],
          calls := calls ?u @ firing ret (ctxt ?u) (state ?u) (events ?u = None)
                     (fns_each (fired_targets (state ?u) [x])) (heap ?u ! length (heap w))\<rparr>)"
    using st by (intro perform_plain_settled) simp_all
  then have q: "perform (plain ret) x ?u =
     Some (Normal (), ?u\<lparr>heap := heap w @ [onion ret c (?F @ [f]) ?a], calls := calls ?u @ [?e]\<rparr>)"
    using assms(4) by (simp add: onion_append)
  have a: "array_like (onion ret c ?F ?a) = (case vs of [] \<Rightarrow> [] | v # rest \<Rightarrow> latest ret ?es v # rest)"
  proof (cases vs)
    case Nil
    then show ?thesis by (simp add: array_like_onion_empty)
  next
    case (Cons v rest)
    then have "array_like ?a = v # rest" by simp
    from array_like_onion[OF this, of ret c ?F st True] Cons show ?thesis by simp
  qed
  show ?thesis
    apply (rule exI[of _ ?u], rule exI[of _ ?es])
    apply (rule exI[of _ "?u\<lparr>heap := heap w @ [onion ret c (?F @ [f]) ?a], calls := calls ?u @ [?e]\<rparr>"])
    apply (rule exI[of _ ?e])
    using p q a by simp
qed

theorem late_registration_fires_once_witness:
  "settlement (CallResolve [Num 1]) (ctxt Deferred_new) = Some (RESOLVED, Null, [Num 1]) \<and>
   state Deferred_new = PENDING \<and>
   events Deferred_new = Some \<lparr>ev_done = [], ev_fail = [], ev_always = []\<rparr> \<and>
   fired_targets RESOLVED [CallDone (Fun 1)] = [Fun 1] \<and>
   perform_all (plain two_then_nothing) [CallResolve [Num 1], CallDone (Fun 0)] Deferred_new =
     Some (Normal (), resolved_1_then_2) \<and>
   perform (plain two_then_nothing) (CallDone (Fun 1)) resolved_1_then_2 =
     Some (Normal (),
       resolved_1_then_2\<lparr>calls := calls resolved_1_then_2 @
         [\<lparr>callee = 1, receiver = Null, passed = [Num 2], seen_state = RESOLVED, seen_purged = True\<rparr>]\<rparr>)"
  using late_registration_fires_once[of "CallResolve [Num 1]" Deferred_new RESOLVED Null "[Num 1]"
      "\<lparr>ev_done = [], ev_fail = [], ev_always = []\<rparr>" "CallDone (Fun 1)" 1 two_then_nothing
      "[CallDone (Fun 0)]"]
  by (simp add: Deferred_new_def resolved_1_then_2_def Deferred_done_def Deferred_resolve_def
      store_arguments_def plain_def log_call_def apply_args_def array_like_def new_arguments_def
      two_then_nothing_def assign_index0_def set_index0_def)

section \<open>Callbacks that call back into the object while it fires\<close>




end
